theory Spec2Isabelle
  imports Complex_Main "HOL-Library.Multiset"
begin

section \<open>Python values used by the CVRP solver\<close>

text \<open>
  The solver is written in Python.  Location indices, demands and the vehicle capacity
  are Python integers (unbounded, possibly negative), modelled as \<open>int\<close>.  Every
  exception the modelled code can raise is a value of \<open>py_error\<close>, and a function
  that can raise returns \<open>py_error + 'a\<close> with \<open>Inl\<close> for the exception.
\<close>

datatype py_error = IndexError | ValueError | ZeroDivisionError | OverflowError

text \<open>
  \<open>xs[i]\<close> for a Python list: a negative index counts from the end, and an index
  outside \<open>-len(xs) .. len(xs) - 1\<close> raises \<open>IndexError\<close>.
\<close>

definition py_index :: "'a list \<Rightarrow> int \<Rightarrow> py_error + 'a" where
  "py_index xs i =
     (if 0 \<le> i \<and> i < int (length xs) then Inr (xs ! nat i)
      else if i < 0 \<and> - int (length xs) \<le> i then Inr (xs ! nat (int (length xs) + i))
      else Inl IndexError)"

text \<open>\<open>route[1:-1]\<close>: the route without its first and its last element
  (empty for a route of fewer than three elements).\<close>

definition interior :: "'a list \<Rightarrow> 'a list" where
  "interior route = butlast (tl route)"

section \<open>The problem model (class CVRP in cvrp.py)\<close>

text \<open>
  A Python float is modelled by the real number it denotes.  Each floating-point
  operation computes the exact result and rounds it; the rounding is the parameter
  \<open>rnd\<close> of every function that does float arithmetic, so that the same definitions
  can be read with exact arithmetic (\<open>exact\<close>) and with the IEEE 754 double precision
  rounding that Python uses (\<open>binary64\<close>, rounding to nearest, ties to even, for
  values in the normal range; overflow to infinity and NaN are outside the model).
\<close>

type_synonym rounding = "real \<Rightarrow> real"

definition exact :: rounding where
  "exact x = x"

definition round_half_even :: "real \<Rightarrow> int" where
  "round_half_even q =
     (let f = \<lfloor>q\<rfloor>; r = q - of_int f
      in if r < 1 / 2 then f else if 1 / 2 < r then f + 1 else if even f then f else f + 1)"

definition binary64 :: rounding where
  "binary64 x =
     (if x = 0 then 0
      else (let e = max (\<lfloor>log 2 \<bar>x\<bar>\<rfloor> - 52) (- 1074)
            in of_int (round_half_even (x / 2 powi e)) * 2 powi e))"

record CVRP =
  locations :: "(real \<times> real) list"
  demands :: "int list"
  vehicle_capacity :: int
  distance_matrix :: "real list list"

type_synonym route = "int list"
type_synonym solution = "int list list"

text \<open>
  \<open>_create_distance_matrix\<close>: an n by n matrix of zeros, then for every \<open>i < j\<close> the
  Euclidean distance is computed once and stored at \<open>[i][j]\<close> and at \<open>[j][i]\<close>.
\<close>

definition euclid :: "rounding \<Rightarrow> real \<times> real \<Rightarrow> real \<times> real \<Rightarrow> real" where
  "euclid rnd p q =
     (case p of (x1, y1) \<Rightarrow> case q of (x2, y2) \<Rightarrow>
        rnd (sqrt (rnd (rnd ((rnd (x2 - x1))\<^sup>2) + rnd ((rnd (y2 - y1))\<^sup>2)))))"

definition set_entry :: "real list list \<Rightarrow> nat \<Rightarrow> nat \<Rightarrow> real \<Rightarrow> real list list" where
  "set_entry matrix i j v = matrix[i := (matrix ! i)[j := v]]"

definition fill_pair :: "rounding \<Rightarrow> (real \<times> real) list \<Rightarrow> nat \<Rightarrow> nat \<Rightarrow> real list list \<Rightarrow> real list list" where
  "fill_pair rnd locs i j matrix =
     (let dist = euclid rnd (locs ! i) (locs ! j)
      in set_entry (set_entry matrix i j dist) j i dist)"

definition fill_row :: "rounding \<Rightarrow> (real \<times> real) list \<Rightarrow> nat \<Rightarrow> real list list \<Rightarrow> real list list" where
  "fill_row rnd locs i matrix = fold (fill_pair rnd locs i) [Suc i ..< length locs] matrix"

definition create_distance_matrix :: "rounding \<Rightarrow> (real \<times> real) list \<Rightarrow> real list list" where
  "create_distance_matrix rnd locs =
     fold (fill_row rnd locs) [0 ..< length locs]
       (replicate (length locs) (replicate (length locs) 0))"

text \<open>The constructor \<open>CVRP.__init__\<close>: the depot becomes location 0 with demand 0.\<close>

definition mk_CVRP :: "rounding \<Rightarrow> real \<times> real \<Rightarrow> (real \<times> real) list \<Rightarrow> int list \<Rightarrow> int \<Rightarrow> CVRP" where
  "mk_CVRP rnd depot locs dems capacity =
     \<lparr> locations = depot # locs,
       demands = 0 # dems,
       vehicle_capacity = capacity,
       distance_matrix = create_distance_matrix rnd (depot # locs) \<rparr>"

text \<open>\<open>calculate_route_distance\<close>: the edge lengths are added from left to right,
  starting from \<open>0.0\<close>; a matrix index out of range raises \<open>IndexError\<close>.\<close>

fun route_distance_loop :: "rounding \<Rightarrow> real list list \<Rightarrow> real \<Rightarrow> route \<Rightarrow> py_error + real" where
  "route_distance_loop rnd matrix distance (from_node # to_node # rest) =
     (case py_index matrix from_node of
        Inl e \<Rightarrow> Inl e
      | Inr row \<Rightarrow>
          (case py_index row to_node of
             Inl e \<Rightarrow> Inl e
           | Inr d \<Rightarrow> route_distance_loop rnd matrix (rnd (distance + d)) (to_node # rest)))"
| "route_distance_loop rnd matrix distance route = Inr distance"

definition calculate_route_distance :: "rounding \<Rightarrow> CVRP \<Rightarrow> route \<Rightarrow> py_error + real" where
  "calculate_route_distance rnd P route = route_distance_loop rnd (distance_matrix P) 0 route"

section \<open>Route splitting (\<open>_split_to_routes\<close>, identical in every strategy)\<close>

fun split_loop :: "CVRP \<Rightarrow> int list \<Rightarrow> solution \<Rightarrow> route \<Rightarrow> int \<Rightarrow> py_error + solution" where
  "split_loop P [] routes current_route current_load =
     Inr (if 1 < length current_route then routes @ [current_route @ [0]] else routes)"
| "split_loop P (customer # rest) routes current_route current_load =
     (case py_index (demands P) customer of
        Inl e \<Rightarrow> Inl e
      | Inr demand \<Rightarrow>
          if vehicle_capacity P < current_load + demand
          then split_loop P rest (routes @ [current_route @ [0]]) [0, customer] demand
          else split_loop P rest routes (current_route @ [customer]) (current_load + demand))"

definition split_to_routes :: "CVRP \<Rightarrow> int list \<Rightarrow> py_error + solution" where
  "split_to_routes P customers = split_loop P customers [] [0] 0"

text \<open>A customer index that \<open>demands[customer]\<close> accepts.\<close>

definition index_ok :: "CVRP \<Rightarrow> int \<Rightarrow> bool" where
  "index_ok P c = (- int (length (demands P)) \<le> c \<and> c < int (length (demands P)))"

text \<open>The demand the code reads for an index (0 where the read would raise).\<close>

definition demand_of :: "CVRP \<Rightarrow> int \<Rightarrow> int" where
  "demand_of P c = (case py_index (demands P) c of Inl e \<Rightarrow> 0 | Inr d \<Rightarrow> d)"

definition route_demand :: "CVRP \<Rightarrow> route \<Rightarrow> int" where
  "route_demand P route = sum_list (map (demand_of P) route)"

section \<open>Feasibility validation (\<open>CVRP.validate_solution\<close>)\<close>

text \<open>
  The first loop: every node of \<open>route[1:-1]\<close>, route by route, must be new, positive and
  below \<open>len(locations)\<close>; \<open>None\<close> stands for the early \<open>return False\<close>.
\<close>

fun visit_nodes :: "CVRP \<Rightarrow> int set \<Rightarrow> int list \<Rightarrow> int set option" where
  "visit_nodes P visited [] = Some visited"
| "visit_nodes P visited (node # nodes) =
     (if node \<in> visited \<or> node \<le> 0 \<or> int (length (locations P)) \<le> node then None
      else visit_nodes P (insert node visited) nodes)"

fun visit_routes :: "CVRP \<Rightarrow> int set \<Rightarrow> solution \<Rightarrow> int set option" where
  "visit_routes P visited [] = Some visited"
| "visit_routes P visited (route # routes) =
     (case visit_nodes P visited (interior route) of
        None \<Rightarrow> None
      | Some visited' \<Rightarrow> visit_routes P visited' routes)"

text \<open>\<open>sum(self.demands[node] for node in route)\<close>, over the whole route, depots included.\<close>

fun sum_demands :: "CVRP \<Rightarrow> route \<Rightarrow> int \<Rightarrow> py_error + int" where
  "sum_demands P [] running = Inr running"
| "sum_demands P (node # nodes) running =
     (case py_index (demands P) node of
        Inl e \<Rightarrow> Inl e
      | Inr d \<Rightarrow> sum_demands P nodes (running + d))"

text \<open>The capacity loop and the depot loop; \<open>Inr False\<close> is \<open>return False\<close>,
  \<open>Inr True\<close> is a loop that ran to its end.\<close>

fun check_capacity :: "CVRP \<Rightarrow> solution \<Rightarrow> py_error + bool" where
  "check_capacity P [] = Inr True"
| "check_capacity P (route # routes) =
     (case sum_demands P route 0 of
        Inl e \<Rightarrow> Inl e
      | Inr running \<Rightarrow> if vehicle_capacity P < running then Inr False else check_capacity P routes)"

fun check_depot :: "solution \<Rightarrow> py_error + bool" where
  "check_depot [] = Inr True"
| "check_depot ([] # routes) = Inl IndexError"
| "check_depot ((first # others) # routes) =
     (if first \<noteq> 0 \<or> last (first # others) \<noteq> 0 then Inr False else check_depot routes)"

definition validate_solution :: "CVRP \<Rightarrow> solution \<Rightarrow> py_error + bool" where
  "validate_solution P routes =
     (case visit_routes P {} routes of
        None \<Rightarrow> Inr False
      | Some visited \<Rightarrow>
          if int (card visited) \<noteq> int (length (locations P)) - 1 then Inr False
          else (case check_capacity P routes of
                  Inl e \<Rightarrow> Inl e
                | Inr ok \<Rightarrow> if ok then check_depot routes else Inr False))"

text \<open>
  \<open>_calculate_cost\<close> (\<open>_calculate_fitness\<close> in the genetic algorithm):
  \<open>sum(calculate_route_distance(route) for route in solution)\<close>, added from left to
  right starting from 0.
\<close>

fun cost_loop :: "rounding \<Rightarrow> CVRP \<Rightarrow> real \<Rightarrow> solution \<Rightarrow> py_error + real" where
  "cost_loop rnd P acc [] = Inr acc"
| "cost_loop rnd P acc (route # routes) =
     (case calculate_route_distance rnd P route of
        Inl e \<Rightarrow> Inl e
      | Inr d \<Rightarrow> cost_loop rnd P (rnd (acc + d)) routes)"

definition calculate_cost :: "rounding \<Rightarrow> CVRP \<Rightarrow> solution \<Rightarrow> py_error + real" where
  "calculate_cost rnd P solution = cost_loop rnd P 0 solution"

section \<open>Random choices (module \<open>random\<close>)\<close>

text \<open>
  The strategies draw from Python's global random generator.  The embedding makes the
  random outcome an explicit argument: a list of natural numbers \<open>draws\<close>, one raw draw
  per choice (the value 0 is used when the list is exhausted), so that every function
  is deterministic in its arguments and every legal outcome is produced by some draws.

  \<open>random.sample(population, k)\<close> chooses \<open>k\<close> entries without replacement: each draw
  selects one of the entries not yet taken.  It raises \<open>ValueError\<close> when \<open>k\<close> is negative
  or larger than the population.  \<open>random.shuffle(xs)\<close> is a sample of all entries.
  \<open>random.random()\<close> is a real \<open>u\<close> with \<open>0 \<le> u < 1\<close>, passed as an argument.
\<close>

fun sample_loop :: "'a list \<Rightarrow> nat \<Rightarrow> nat list \<Rightarrow> 'a list" where
  "sample_loop pool 0 draws = []"
| "sample_loop pool (Suc k) draws =
     (let j = (case draws of [] \<Rightarrow> 0 | d # ds \<Rightarrow> d mod length pool)
      in pool ! j # sample_loop (take j pool @ drop (Suc j) pool) k (tl draws))"

definition py_sample :: "'a list \<Rightarrow> int \<Rightarrow> nat list \<Rightarrow> py_error + 'a list" where
  "py_sample population k draws =
     (if k < 0 \<or> int (length population) < k then Inl ValueError
      else Inr (sample_loop population (nat k) draws))"

definition py_shuffle :: "'a list \<Rightarrow> nat list \<Rightarrow> 'a list" where
  "py_shuffle xs draws = sample_loop xs (length xs) draws"

text \<open>\<open>i, j = random.sample(range(size), 2)\<close>.\<close>

definition sample_pair :: "nat \<Rightarrow> nat list \<Rightarrow> py_error + nat \<times> nat" where
  "sample_pair n draws =
     (case py_sample [0 ..< n] 2 draws of
        Inl e \<Rightarrow> Inl e
      | Inr picks \<Rightarrow> Inr (picks ! 0, picks ! 1))"

text \<open>\<open>min(xs)\<close>, \<open>max(xs)\<close> and \<open>min(xs, key=...)\<close> with the keys already computed: the
  first smallest element; \<open>ValueError\<close> on an empty list.\<close>

fun py_min :: "real list \<Rightarrow> py_error + real" where
  "py_min [] = Inl ValueError"
| "py_min (x # xs) = Inr (fold (\<lambda>y m. if y < m then y else m) xs x)"

fun py_max :: "real list \<Rightarrow> py_error + real" where
  "py_max [] = Inl ValueError"
| "py_max (x # xs) = Inr (fold (\<lambda>y m. if m < y then y else m) xs x)"

fun py_min_key :: "(real \<times> 'a) list \<Rightarrow> py_error + 'a" where
  "py_min_key [] = Inl ValueError"
| "py_min_key (x # xs) = Inr (snd (fold (\<lambda>y m. if fst y < fst m then y else m) xs x))"

section \<open>Building blocks shared by the strategies\<close>

text \<open>\<open>list(range(1, len(self.cvrp.locations)))\<close>.\<close>

definition customer_list :: "CVRP \<Rightarrow> int list" where
  "customer_list P = map int [1 ..< length (locations P)]"

text \<open>\<open>_random_solution\<close>, \<open>_create_initial_solution\<close>, \<open>_generate_random_solution\<close>:
  shuffle the customers and split.\<close>

definition random_solution :: "CVRP \<Rightarrow> nat list \<Rightarrow> py_error + solution" where
  "random_solution P draws = split_to_routes P (py_shuffle (customer_list P) draws)"

text \<open>\<open>[self._calculate_cost(s) for s in solutions]\<close>.\<close>

fun costs_of :: "rounding \<Rightarrow> CVRP \<Rightarrow> solution list \<Rightarrow> py_error + real list" where
  "costs_of rnd P [] = Inr []"
| "costs_of rnd P (s # ss) =
     (case calculate_cost rnd P s of
        Inl e \<Rightarrow> Inl e
      | Inr c \<Rightarrow> (case costs_of rnd P ss of Inl e \<Rightarrow> Inl e | Inr cs \<Rightarrow> Inr (c # cs)))"

text \<open>\<open>flat[i], flat[j] = flat[j], flat[i]\<close>.\<close>

definition swap_at :: "'a list \<Rightarrow> nat \<Rightarrow> nat \<Rightarrow> 'a list" where
  "swap_at flat i j = (flat[i := flat ! j])[j := flat ! i]"

text \<open>The single-swap neighbour of simulated annealing and tabu search:
  \<open>None\<close> when the solution has fewer than two interior customers.\<close>

definition swap_neighbor :: "CVRP \<Rightarrow> solution \<Rightarrow> nat list \<Rightarrow> (py_error + solution) option" where
  "swap_neighbor P solution draws =
     (let flat = concat (map interior solution)
      in if length flat < 2 then None
         else Some (case sample_pair (length flat) draws of
                      Inl e \<Rightarrow> Inl e
                    | Inr (i, j) \<Rightarrow> split_to_routes P (swap_at flat i j)))"

section \<open>The genetic algorithm (genetic_algorithm.py)\<close>

text \<open>
  The fields of a \<open>GeneticAlgorithm\<close> object after \<open>__init__\<close>; \<open>elitism\<close> is the
  number of elites \<open>int(elitism * pop_size)\<close>.
\<close>

record ga_config =
  pop_size :: int
  generations :: int
  mutation_rate :: real
  crossover_rate :: real
  tournament_size :: int
  elitism :: int

text \<open>The random outcome of one pass through the offspring loop.\<close>

record attempt =
  pick1 :: "nat list"
  pick2 :: "nat list"
  u_cross :: real
  cut :: "nat list"
  u_mut :: real
  swap :: "nat list"

text \<open>
  A loop that may run forever is given a finite supply: a retry loop consumes one random
  outcome per pass from a finite list, a \<open>while\<close> loop one unit of fuel per pass.
  \<open>Unfinished\<close> is the loop still running when the supply is used up.
\<close>

datatype 'a outcome = Returned 'a | Raised py_error | Unfinished

fun init_loop :: "CVRP \<Rightarrow> int \<Rightarrow> solution list \<Rightarrow> nat list list \<Rightarrow> solution list outcome" where
  "init_loop P target population [] =
     (if int (length population) < target then Unfinished else Returned population)"
| "init_loop P target population (draws # more_draws) =
     (if int (length population) < target
      then (case random_solution P draws of
              Inl e \<Rightarrow> Raised e
            | Inr solution \<Rightarrow>
                (case validate_solution P solution of
                   Inl e \<Rightarrow> Raised e
                 | Inr ok \<Rightarrow>
                     init_loop P target (if ok then population @ [solution] else population)
                       more_draws))
      else Returned population)"

definition initialize_population :: "CVRP \<Rightarrow> ga_config \<Rightarrow> nat list list \<Rightarrow> solution list outcome" where
  "initialize_population P cfg seeds = init_loop P (pop_size cfg) [] seeds"

definition tournament_selection :: "rounding \<Rightarrow> CVRP \<Rightarrow> ga_config \<Rightarrow> solution list \<Rightarrow> nat list \<Rightarrow> py_error + solution" where
  "tournament_selection rnd P cfg population draws =
     (case py_sample population (tournament_size cfg) draws of
        Inl e \<Rightarrow> Inl e
      | Inr tournament \<Rightarrow>
          (case costs_of rnd P tournament of
             Inl e \<Rightarrow> Inl e
           | Inr keys \<Rightarrow> py_min_key (zip keys tournament)))"

text \<open>\<open>[node for route in parent for node in route if node != 0][:-1]\<close>.\<close>

definition flatten_parent :: "solution \<Rightarrow> int list" where
  "flatten_parent parent = butlast (filter (\<lambda>node. node \<noteq> 0) (concat parent))"

text \<open>The fill loop of the ordered crossover, over \<open>i\<close> in \<open>range(size)\<close>;
  \<open>child[start:end]\<close> is read as \<open>take (stop - start) (drop start child)\<close>.\<close>

fun fill_loop :: "int list \<Rightarrow> nat \<Rightarrow> nat \<Rightarrow> nat \<Rightarrow> int list \<Rightarrow> nat \<Rightarrow> nat list \<Rightarrow> py_error + int list" where
  "fill_loop flat2 start stop n child ptr [] = Inr child"
| "fill_loop flat2 start stop n child ptr (i # rest) =
     (let ptr = (if ptr = start then stop else ptr)
      in if n \<le> ptr then Inr child
         else if length flat2 \<le> i then Inl IndexError
         else if flat2 ! i \<notin> set (take (stop - start) (drop start child))
         then fill_loop flat2 start stop n (child[ptr := flat2 ! i]) (ptr + 1) rest
         else fill_loop flat2 start stop n child ptr rest)"

text \<open>The child of the ordered crossover before it is split into routes.\<close>

definition crossover_child :: "solution \<Rightarrow> solution \<Rightarrow> nat list \<Rightarrow> py_error + int list" where
  "crossover_child parent1 parent2 draws =
     (let flat1 = flatten_parent parent1;
          flat2 = flatten_parent parent2;
          n = length flat1
      in case sample_pair n draws of
           Inl e \<Rightarrow> Inl e
         | Inr (a, b) \<Rightarrow>
             (let start = min a b;
                  stop = max a b;
                  child = replicate n (- 1);
                  child = take start child @ take (stop - start) (drop start flat1) @ drop stop child
              in fill_loop flat2 start stop n child 0 [0 ..< n]))"

definition ordered_crossover :: "CVRP \<Rightarrow> solution \<Rightarrow> solution \<Rightarrow> nat list \<Rightarrow> py_error + solution" where
  "ordered_crossover P parent1 parent2 draws =
     (case crossover_child parent1 parent2 draws of
        Inl e \<Rightarrow> Inl e
      | Inr child \<Rightarrow> split_to_routes P child)"

definition mutate :: "CVRP \<Rightarrow> ga_config \<Rightarrow> solution \<Rightarrow> real \<Rightarrow> nat list \<Rightarrow> py_error + solution" where
  "mutate P cfg solution u draws =
     (if u < mutation_rate cfg
      then (let flat = filter (\<lambda>node. node \<noteq> 0) (concat solution)
            in case sample_pair (length flat) draws of
                 Inl e \<Rightarrow> Inl e
               | Inr (idx1, idx2) \<Rightarrow> split_to_routes P (swap_at flat idx1 idx2))
      else Inr solution)"

text \<open>One pass through the body of the offspring loop, up to the validation of the
  child: \<open>Inr (child, ok)\<close>.\<close>

definition make_child :: "rounding \<Rightarrow> CVRP \<Rightarrow> ga_config \<Rightarrow> solution list \<Rightarrow> attempt \<Rightarrow> py_error + solution \<times> bool" where
  "make_child rnd P cfg population a =
     (case tournament_selection rnd P cfg population (pick1 a) of
        Inl e \<Rightarrow> Inl e
      | Inr parent1 \<Rightarrow>
          (case tournament_selection rnd P cfg population (pick2 a) of
             Inl e \<Rightarrow> Inl e
           | Inr parent2 \<Rightarrow>
               (case (if u_cross a < crossover_rate cfg
                      then ordered_crossover P parent1 parent2 (cut a)
                      else Inr parent1) of
                  Inl e \<Rightarrow> Inl e
                | Inr child \<Rightarrow>
                    (case mutate P cfg child (u_mut a) (swap a) of
                       Inl e \<Rightarrow> Inl e
                     | Inr child' \<Rightarrow>
                         (case validate_solution P child' of
                            Inl e \<Rightarrow> Inl e
                          | Inr ok \<Rightarrow> Inr (child', ok))))))"

fun offspring_loop :: "rounding \<Rightarrow> CVRP \<Rightarrow> ga_config \<Rightarrow> solution list \<Rightarrow> solution list \<Rightarrow> attempt list \<Rightarrow> solution list outcome" where
  "offspring_loop rnd P cfg population new_pop [] =
     (if int (length new_pop) < pop_size cfg then Unfinished else Returned new_pop)"
| "offspring_loop rnd P cfg population new_pop (a # attempts) =
     (if int (length new_pop) < pop_size cfg
      then (case make_child rnd P cfg population a of
              Inl e \<Rightarrow> Raised e
            | Inr (child, ok) \<Rightarrow>
                offspring_loop rnd P cfg population (if ok then new_pop @ [child] else new_pop)
                  attempts)
      else Returned new_pop)"

text \<open>\<open>xs[:k]\<close> for a Python integer \<open>k\<close>.\<close>

definition py_prefix :: "'a list \<Rightarrow> int \<Rightarrow> 'a list" where
  "py_prefix xs k = (if 0 \<le> k then take (nat k) xs else take (nat (int (length xs) + k)) xs)"

text \<open>The per-generation statistics kept by the model (\<open>stats['best']\<close> and
  \<open>stats['worst']\<close>; the averages and the standard deviation are numpy reductions that
  never raise and are not modelled).\<close>

record ga_stats =
  best_series :: "real list"
  worst_series :: "real list"

text \<open>One generation: the body of \<open>for gen in range(self.generations)\<close>.\<close>

definition generation :: "rounding \<Rightarrow> CVRP \<Rightarrow> ga_config \<Rightarrow> ga_stats \<times> solution list \<Rightarrow> attempt list \<Rightarrow> (ga_stats \<times> solution list) outcome" where
  "generation rnd P cfg state attempts =
     (case state of (stats, population) \<Rightarrow>
        (case costs_of rnd P population of
           Inl e \<Rightarrow> Raised e
         | Inr fitness \<Rightarrow>
             (case py_min fitness of
                Inl e \<Rightarrow> Raised e
              | Inr lo \<Rightarrow>
                  (case py_max fitness of
                     Inl e \<Rightarrow> Raised e
                   | Inr hi \<Rightarrow>
                       (let stats' = \<lparr> best_series = best_series stats @ [lo],
                                       worst_series = worst_series stats @ [hi] \<rparr>;
                            sorted_pop = map snd (sort_key fst (zip fitness population));
                            elites = py_prefix sorted_pop (elitism cfg)
                        in case offspring_loop rnd P cfg sorted_pop elites attempts of
                             Raised e \<Rightarrow> Raised e
                           | Unfinished \<Rightarrow> Unfinished
                           | Returned new_pop \<Rightarrow> Returned (stats', new_pop))))))"

fun generations_loop :: "rounding \<Rightarrow> CVRP \<Rightarrow> ga_config \<Rightarrow> nat \<Rightarrow> ga_stats \<times> solution list \<Rightarrow> attempt list list \<Rightarrow> (ga_stats \<times> solution list) outcome" where
  "generations_loop rnd P cfg 0 state oracle = Returned state"
| "generations_loop rnd P cfg (Suc n) state oracle =
     (case generation rnd P cfg state (case oracle of [] \<Rightarrow> [] | attempts # more_attempts \<Rightarrow> attempts) of
        Raised e \<Rightarrow> Raised e
      | Unfinished \<Rightarrow> Unfinished
      | Returned state' \<Rightarrow> generations_loop rnd P cfg n state' (tl oracle))"

record ga_result =
  ga_best_solution :: solution
  ga_best_distance :: real
  ga_worst_distance :: real
  ga_history :: ga_stats

text \<open>\<open>GeneticAlgorithm(...)\<close> followed by \<open>run()\<close>: \<open>seeds\<close> are the shuffles of the
  initial population, \<open>oracle\<close> the offspring attempts of each generation.\<close>

definition ga_run :: "rounding \<Rightarrow> CVRP \<Rightarrow> ga_config \<Rightarrow> nat list list \<Rightarrow> attempt list list \<Rightarrow> ga_result outcome" where
  "ga_run rnd P cfg seeds oracle =
     (case initialize_population P cfg seeds of
        Raised e \<Rightarrow> Raised e
      | Unfinished \<Rightarrow> Unfinished
      | Returned population \<Rightarrow>
          (case generations_loop rnd P cfg (nat (generations cfg))
                  (\<lparr> best_series = [], worst_series = [] \<rparr>, population) oracle of
             Raised e \<Rightarrow> Raised e
           | Unfinished \<Rightarrow> Unfinished
           | Returned (stats, final_pop) \<Rightarrow>
               (case costs_of rnd P final_pop of
                  Inl e \<Rightarrow> Raised e
                | Inr final_fitness \<Rightarrow>
                    (case py_min_key (zip final_fitness final_pop) of
                       Inl e \<Rightarrow> Raised e
                     | Inr best \<Rightarrow>
                         (case py_min final_fitness of
                            Inl e \<Rightarrow> Raised e
                          | Inr lo \<Rightarrow>
                              (case py_max final_fitness of
                                 Inl e \<Rightarrow> Raised e
                               | Inr hi \<Rightarrow>
                                   Returned \<lparr> ga_best_solution = best, ga_best_distance = lo,
                                     ga_worst_distance = hi, ga_history = stats \<rparr>))))))"

section \<open>Tabu search (tabu_search.py)\<close>

text \<open>
  \<open>str(solution)\<close> for a list of lists of integers, as Python prints it:
  \<open>[[0, 1, 0], [0, 2, 0]]\<close>.
\<close>

fun str_nat :: "nat \<Rightarrow> string" where
  "str_nat n = (if n < 10 then [char_of (48 + n)] else str_nat (n div 10) @ [char_of (48 + n mod 10)])"

definition str_int :: "int \<Rightarrow> string" where
  "str_int i = (if i < 0 then CHR ''-'' # str_nat (nat (- i)) else str_nat (nat i))"

fun join_comma :: "string list \<Rightarrow> string" where
  "join_comma [] = []"
| "join_comma [x] = x"
| "join_comma (x # y # ys) = x @ '', '' @ join_comma (y # ys)"

definition str_route :: "route \<Rightarrow> string" where
  "str_route r = ''['' @ join_comma (map str_int r) @ '']''"

definition str_solution :: "solution \<Rightarrow> string" where
  "str_solution s = ''['' @ join_comma (map str_route s) @ '']''"

record tabu_config =
  ts_iterations :: int
  tabu_size :: int
  neighborhood_size :: int

text \<open>The local variables of \<open>run\<close> and the statistics \<open>self.stats\<close>, shared by tabu
  search and simulated annealing; tabu search adds \<open>self.tabu_list\<close>.\<close>

record search_state =
  current_solution :: solution
  current_cost :: real
  best_solution :: solution
  best_cost :: real
  stats_best :: "real list"
  stats_current :: "real list"
  stats_worst :: "real list"

record tabu_state = search_state +
  tabu_list :: "string list"

text \<open>\<open>_generate_neighbors\<close>: one pass per neighbourhood slot, each with its own draws;
  a pass is skipped when there are fewer than two interior customers, and an empty
  result is replaced by the solution itself.\<close>

fun neighbors_loop :: "CVRP \<Rightarrow> solution \<Rightarrow> nat \<Rightarrow> nat list list \<Rightarrow> py_error + solution list" where
  "neighbors_loop P solution 0 draws = Inr []"
| "neighbors_loop P solution (Suc k) draws =
     (case swap_neighbor P solution (case draws of [] \<Rightarrow> [] | d # ds \<Rightarrow> d) of
        None \<Rightarrow> neighbors_loop P solution k (tl draws)
      | Some (Inl e) \<Rightarrow> Inl e
      | Some (Inr neighbor) \<Rightarrow>
          (case neighbors_loop P solution k (tl draws) of
             Inl e \<Rightarrow> Inl e
           | Inr neighbors \<Rightarrow> Inr (neighbor # neighbors)))"

definition generate_neighbors :: "CVRP \<Rightarrow> tabu_config \<Rightarrow> solution \<Rightarrow> nat list list \<Rightarrow> py_error + solution list" where
  "generate_neighbors P cfg solution draws =
     (case neighbors_loop P solution (nat (neighborhood_size cfg)) draws of
        Inl e \<Rightarrow> Inl e
      | Inr neighbors \<Rightarrow> Inr (if neighbors = [] then [solution] else neighbors))"

text \<open>The search for the best non-tabu neighbour; \<open>None\<close> is the initial
  \<open>best_candidate, best_candidate_cost = None, float('inf')\<close>.\<close>

fun select_candidate :: "string list \<Rightarrow> (solution \<times> real) option \<Rightarrow> (solution \<times> real) list \<Rightarrow> (solution \<times> real) option" where
  "select_candidate tabu best [] = best"
| "select_candidate tabu best ((neighbor, cost) # rest) =
     select_candidate tabu
       (if (case best of None \<Rightarrow> True | Some (b, best_candidate_cost) \<Rightarrow> cost < best_candidate_cost)
           \<and> str_solution neighbor \<notin> set tabu
        then Some (neighbor, cost) else best)
       rest"

text \<open>\<open>_update_stats\<close> of tabu search and simulated annealing.\<close>

definition update_stats :: "real \<Rightarrow> real \<Rightarrow> 'a search_state_scheme \<Rightarrow> py_error + 'a search_state_scheme" where
  "update_stats best current st =
     (case py_max ((stats_best st @ [best]) @ [current]) of
        Inl e \<Rightarrow> Inl e
      | Inr worst \<Rightarrow>
          Inr (st\<lparr> stats_best := stats_best st @ [best],
                    stats_current := stats_current st @ [current],
                    stats_worst := stats_worst st @ [worst] \<rparr>))"

text \<open>\<open>if best_candidate_cost < best_cost:\<close> the candidate becomes the best solution;
  no candidate stands for the cost \<open>float('inf')\<close>, which is below no cost.\<close>

definition update_best :: "(solution \<times> real) option \<Rightarrow> tabu_state \<Rightarrow> tabu_state" where
  "update_best candidate st =
     (case candidate of
        None \<Rightarrow> st
      | Some (best_candidate, best_candidate_cost) \<Rightarrow>
          if best_candidate_cost < best_cost st
          then st\<lparr> best_solution := best_candidate, best_cost := best_candidate_cost \<rparr>
          else st)"

text \<open>\<open>if best_candidate:\<close> is Python's truth test, which fails for \<open>None\<close> and for an
  empty list of routes; otherwise the signature is appended to the tabu list, the oldest
  entry is removed when the list is longer than \<open>tabu_size\<close>, and the candidate becomes
  the current solution.\<close>

definition move_to :: "tabu_config \<Rightarrow> (solution \<times> real) option \<Rightarrow> tabu_state \<Rightarrow> tabu_state" where
  "move_to cfg candidate st =
     (case candidate of
        None \<Rightarrow> st
      | Some (best_candidate, best_candidate_cost) \<Rightarrow>
          if best_candidate \<noteq> []
          then (let pushed = tabu_list st @ [str_solution best_candidate]
                in st\<lparr> tabu_list := (if tabu_size cfg < int (length pushed) then tl pushed else pushed),
                        current_solution := best_candidate,
                        current_cost := best_candidate_cost \<rparr>)
          else st)"

text \<open>One iteration of the tabu search loop.\<close>

definition tabu_iteration :: "rounding \<Rightarrow> CVRP \<Rightarrow> tabu_config \<Rightarrow> tabu_state \<Rightarrow> nat list list \<Rightarrow> py_error + tabu_state" where
  "tabu_iteration rnd P cfg st draws =
     (case generate_neighbors P cfg (current_solution st) draws of
        Inl e \<Rightarrow> Inl e
      | Inr neighbors \<Rightarrow>
          (case costs_of rnd P neighbors of
             Inl e \<Rightarrow> Inl e
           | Inr costs \<Rightarrow>
               (let candidate = select_candidate (tabu_list st) None (zip neighbors costs);
                    st' = move_to cfg candidate (update_best candidate st)
                in update_stats (best_cost st') (current_cost st') st')))"





section \<open>Simulated annealing (simulated_annealing.py)\<close>









section \<open>Random search (random_algorithm.py)\<close>

text \<open>A cost that can be \<open>float('inf')\<close>.\<close>

datatype pyfloat = Finite real | Infinity

fun pf_less :: "pyfloat \<Rightarrow> pyfloat \<Rightarrow> bool" where
  "pf_less (Finite a) (Finite b) = (a < b)"
| "pf_less (Finite a) Infinity = True"
| "pf_less Infinity b = False"

record random_state =
  rs_best_solution :: "solution option"
  rs_best_cost :: pyfloat
  rs_costs :: "real list"
  rs_best_series :: "real list"
  rs_worst_series :: "real list"

text \<open>One iteration of \<open>RandomAlgorithm.run\<close>; \<open>None\<close> is Python's \<open>None\<close>.  The list of
  costs is not empty when \<open>_update_stats\<close> takes its minimum and maximum.\<close>

definition random_iteration :: "rounding \<Rightarrow> CVRP \<Rightarrow> random_state \<Rightarrow> nat list \<Rightarrow> py_error + random_state" where
  "random_iteration rnd P st draws =
     (case random_solution P draws of
        Inl e \<Rightarrow> Inl e
      | Inr solution \<Rightarrow>
          (case calculate_cost rnd P solution of
             Inl e \<Rightarrow> Inl e
           | Inr cost \<Rightarrow>
               (let costs = rs_costs st @ [cost];
                    st1 = (if pf_less (Finite cost) (rs_best_cost st)
                           then st\<lparr> rs_best_solution := Some solution, rs_best_cost := Finite cost \<rparr>
                           else st)
                in case py_min costs of
                     Inl e \<Rightarrow> Inl e
                   | Inr lo \<Rightarrow>
                       (case py_max costs of
                          Inl e \<Rightarrow> Inl e
                        | Inr hi \<Rightarrow>
                            Inr (st1\<lparr> rs_costs := costs,
                                       rs_best_series := rs_best_series st1 @ [lo],
                                       rs_worst_series := rs_worst_series st1 @ [hi] \<rparr>)))))"

fun random_loop :: "rounding \<Rightarrow> CVRP \<Rightarrow> nat \<Rightarrow> random_state \<Rightarrow> nat list list \<Rightarrow> py_error + random_state" where
  "random_loop rnd P 0 st seeds = Inr st"
| "random_loop rnd P (Suc n) st seeds =
     (case random_iteration rnd P st (case seeds of [] \<Rightarrow> [] | d # ds \<Rightarrow> d) of
        Inl e \<Rightarrow> Inl e
      | Inr st' \<Rightarrow> random_loop rnd P n st' (tl seeds))"

record random_result =
  rr_best_solution :: "solution option"
  rr_best_distance :: real
  rr_worst_distance :: real
  rr_best_series :: "real list"
  rr_worst_series :: "real list"

definition random_run :: "rounding \<Rightarrow> CVRP \<Rightarrow> int \<Rightarrow> nat list list \<Rightarrow> py_error + random_result" where
  "random_run rnd P num_iterations seeds =
     (case random_loop rnd P (nat num_iterations)
             \<lparr> rs_best_solution = None, rs_best_cost = Infinity, rs_costs = [],
               rs_best_series = [], rs_worst_series = [] \<rparr> seeds of
        Inl e \<Rightarrow> Inl e
      | Inr st \<Rightarrow>
          (case py_min (rs_costs st) of
             Inl e \<Rightarrow> Inl e
           | Inr lo \<Rightarrow>
               (case py_max (rs_costs st) of
                  Inl e \<Rightarrow> Inl e
                | Inr hi \<Rightarrow>
                    Inr \<lparr> rr_best_solution = rs_best_solution st, rr_best_distance = lo,
                          rr_worst_distance = hi, rr_best_series = rs_best_series st,
                          rr_worst_series = rs_worst_series st \<rparr>)))"

section \<open>Greedy nearest-neighbour construction (greedy_algorithm.py)\<close>

text \<open>\<open>[c for c in customers if self.cvrp.demands[c] + current_load <= capacity]\<close>.\<close>

fun candidates_of :: "CVRP \<Rightarrow> int list \<Rightarrow> int \<Rightarrow> py_error + int list" where
  "candidates_of P [] current_load = Inr []"
| "candidates_of P (c # cs) current_load =
     (case py_index (demands P) c of
        Inl e \<Rightarrow> Inl e
      | Inr d \<Rightarrow>
          (case candidates_of P cs current_load of
             Inl e \<Rightarrow> Inl e
           | Inr rest \<Rightarrow> Inr (if d + current_load \<le> vehicle_capacity P then c # rest else rest)))"

text \<open>The keys \<open>self.cvrp.distance_matrix[last_city][c]\<close> of the candidates.\<close>

fun distances_from :: "CVRP \<Rightarrow> int \<Rightarrow> int list \<Rightarrow> py_error + (real \<times> int) list" where
  "distances_from P last_city [] = Inr []"
| "distances_from P last_city (c # cs) =
     (case py_index (distance_matrix P) last_city of
        Inl e \<Rightarrow> Inl e
      | Inr row \<Rightarrow>
          (case py_index row c of
             Inl e \<Rightarrow> Inl e
           | Inr d \<Rightarrow>
               (case distances_from P last_city cs of
                  Inl e \<Rightarrow> Inl e
                | Inr rest \<Rightarrow> Inr ((d, c) # rest))))"

text \<open>
  The \<open>while customers:\<close> loop of \<open>_greedy_solution\<close>, one unit of fuel per pass.
  \<open>current_route\<close> always starts with the depot, so \<open>current_route[-1]\<close> is its last
  element; \<open>customers.remove(next_city)\<close> removes the first occurrence.
\<close>

fun greedy_loop :: "nat \<Rightarrow> CVRP \<Rightarrow> int list \<Rightarrow> solution \<Rightarrow> route \<Rightarrow> int \<Rightarrow> solution outcome" where
  "greedy_loop fuel P [] routes current_route current_load =
     Returned (if 1 < length current_route then routes @ [current_route @ [0]] else routes)"
| "greedy_loop 0 P (c # cs) routes current_route current_load = Unfinished"
| "greedy_loop (Suc fuel) P (c # cs) routes current_route current_load =
     (case candidates_of P (c # cs) current_load of
        Inl e \<Rightarrow> Raised e
      | Inr candidates \<Rightarrow>
          if candidates = []
          then greedy_loop fuel P (c # cs) (routes @ [current_route @ [0]]) [0] 0
          else (case distances_from P (last current_route) candidates of
                  Inl e \<Rightarrow> Raised e
                | Inr keyed \<Rightarrow>
                    (case py_min_key keyed of
                       Inl e \<Rightarrow> Raised e
                     | Inr next_city \<Rightarrow>
                         (case py_index (demands P) next_city of
                            Inl e \<Rightarrow> Raised e
                          | Inr d \<Rightarrow>
                              greedy_loop fuel P (remove1 next_city (c # cs)) routes
                                (current_route @ [next_city]) (current_load + d)))))"

definition greedy_solution :: "nat \<Rightarrow> CVRP \<Rightarrow> nat list \<Rightarrow> solution outcome" where
  "greedy_solution fuel P draws = greedy_loop fuel P (py_shuffle (customer_list P) draws) [] [0] 0"

text \<open>\<open>GreedyAlgorithm._calculate_cost\<close>: \<open>float('inf')\<close> for an empty solution.\<close>

definition greedy_cost :: "rounding \<Rightarrow> CVRP \<Rightarrow> solution \<Rightarrow> py_error + pyfloat" where
  "greedy_cost rnd P solution =
     (if solution = [] then Inr Infinity
      else (case calculate_cost rnd P solution of Inl e \<Rightarrow> Inl e | Inr c \<Rightarrow> Inr (Finite c)))"

text \<open>\<open>min\<close>, \<open>max\<close> and \<open>np.argmin\<close> over costs that can be infinite; all three raise
  \<open>ValueError\<close> on an empty list, and \<open>argmin\<close> is the first index of the minimum.\<close>

fun pf_min :: "pyfloat list \<Rightarrow> py_error + pyfloat" where
  "pf_min [] = Inl ValueError"
| "pf_min (x # xs) = Inr (fold (\<lambda>y m. if pf_less y m then y else m) xs x)"

fun pf_max :: "pyfloat list \<Rightarrow> py_error + pyfloat" where
  "pf_max [] = Inl ValueError"
| "pf_max (x # xs) = Inr (fold (\<lambda>y m. if pf_less m y then y else m) xs x)"

fun argmin_loop :: "pyfloat list \<Rightarrow> nat \<Rightarrow> nat \<Rightarrow> pyfloat \<Rightarrow> nat" where
  "argmin_loop [] i best_idx best = best_idx"
| "argmin_loop (x # xs) i best_idx best =
     (if pf_less x best then argmin_loop xs (Suc i) i x else argmin_loop xs (Suc i) best_idx best)"

fun np_argmin :: "pyfloat list \<Rightarrow> py_error + nat" where
  "np_argmin [] = Inl ValueError"
| "np_argmin (x # xs) = Inr (argmin_loop xs 1 0 x)"

record greedy_state =
  gs_solutions :: "solution list"
  gs_costs :: "pyfloat list"
  gs_best_series :: "pyfloat list"
  gs_worst_series :: "pyfloat list"

text \<open>The restarts of \<open>GreedyAlgorithm.run\<close>: every restart has its own shuffle and the
  same fuel.\<close>

fun greedy_restarts :: "rounding \<Rightarrow> nat \<Rightarrow> CVRP \<Rightarrow> nat \<Rightarrow> greedy_state \<Rightarrow> nat list list \<Rightarrow> greedy_state outcome" where
  "greedy_restarts rnd fuel P 0 st seeds = Returned st"
| "greedy_restarts rnd fuel P (Suc n) st seeds =
     (case greedy_solution fuel P (case seeds of [] \<Rightarrow> [] | d # ds \<Rightarrow> d) of
        Raised e \<Rightarrow> Raised e
      | Unfinished \<Rightarrow> Unfinished
      | Returned solution \<Rightarrow>
          (case greedy_cost rnd P solution of
             Inl e \<Rightarrow> Raised e
           | Inr cost \<Rightarrow>
               (let costs = gs_costs st @ [cost]
                in case pf_min costs of
                     Inl e \<Rightarrow> Raised e
                   | Inr lo \<Rightarrow>
                       (case pf_max costs of
                          Inl e \<Rightarrow> Raised e
                        | Inr hi \<Rightarrow>
                            greedy_restarts rnd fuel P n
                              \<lparr> gs_solutions = gs_solutions st @ [solution], gs_costs = costs,
                                gs_best_series = gs_best_series st @ [lo],
                                gs_worst_series = gs_worst_series st @ [hi] \<rparr>
                              (tl seeds)))))"

record greedy_result =
  gr_best_solution :: solution
  gr_best_distance :: pyfloat
  gr_worst_distance :: pyfloat
  gr_best_series :: "pyfloat list"
  gr_worst_series :: "pyfloat list"

definition greedy_run :: "rounding \<Rightarrow> nat \<Rightarrow> CVRP \<Rightarrow> int \<Rightarrow> nat list list \<Rightarrow> greedy_result outcome" where
  "greedy_run rnd fuel P num_runs seeds =
     (case greedy_restarts rnd fuel P (nat num_runs)
             \<lparr> gs_solutions = [], gs_costs = [], gs_best_series = [], gs_worst_series = [] \<rparr>
             seeds of
        Raised e \<Rightarrow> Raised e
      | Unfinished \<Rightarrow> Unfinished
      | Returned st \<Rightarrow>
          (case np_argmin (gs_costs st) of
             Inl e \<Rightarrow> Raised e
           | Inr best_idx \<Rightarrow>
               (case pf_min (gs_costs st) of
                  Inl e \<Rightarrow> Raised e
                | Inr lo \<Rightarrow>
                    (case pf_max (gs_costs st) of
                       Inl e \<Rightarrow> Raised e
                     | Inr hi \<Rightarrow>
                         Returned \<lparr> gr_best_solution = gs_solutions st ! best_idx,
                           gr_best_distance = lo, gr_worst_distance = hi,
                           gr_best_series = gs_best_series st,
                           gr_worst_series = gs_worst_series st \<rparr>))))"

section \<open>Problem instances used in the examples\<close>

text \<open>The scenario of the specification: depot (0,0), customers (1,0), (2,0), (0,1),
  (0,2), every demand 1, capacity 2.\<close>

definition scenario :: "rounding \<Rightarrow> CVRP" where
  "scenario rnd = mk_CVRP rnd (0, 0) [(1, 0), (2, 0), (0, 1), (0, 2)] [1, 1, 1, 1] 2"

text \<open>One customer whose demand (5) is larger than the vehicle capacity (3).\<close>

definition overload_instance :: CVRP where
  "overload_instance = mk_CVRP exact (0, 0) [(1, 0)] [5] 3"

text \<open>One customer at (1,0) with demand 1, capacity 10.\<close>

definition single_customer :: CVRP where
  "single_customer = mk_CVRP exact (0, 0) [(1, 0)] [1] 10"

section \<open>Auxiliary notions for the proofs\<close>

text \<open>An n by n matrix as a list of rows.\<close>

definition square :: "nat \<Rightarrow> real list list \<Rightarrow> bool" where
  "square n matrix = (length matrix = n \<and> (\<forall>row \<in> set matrix. length row = n))"

text \<open>The distance between locations \<open>i\<close> and \<open>j\<close> as the constructor computes it: from
  the lower index to the higher one.\<close>

definition pair_distance :: "rounding \<Rightarrow> (real \<times> real) list \<Rightarrow> nat \<Rightarrow> nat \<Rightarrow> real" where
  "pair_distance rnd locs i j =
     (if i < j then euclid rnd (locs ! i) (locs ! j)
      else if j < i then euclid rnd (locs ! j) (locs ! i)
      else 0)"

text \<open>The position a Python index denotes in a list of length \<open>n\<close>.\<close>

definition position :: "nat \<Rightarrow> int \<Rightarrow> nat" where
  "position n i = nat (if i < 0 then int n + i else i)"

definition in_range :: "nat \<Rightarrow> int \<Rightarrow> bool" where
  "in_range n i = (- int n \<le> i \<and> i < int n)"



text \<open>No customers at all: only the depot.\<close>

definition depot_only :: CVRP where
  "depot_only = mk_CVRP exact (0, 0) [] [] 10"

text \<open>A small configuration of the genetic algorithm: two individuals, one generation,
  tournaments of one, no elites, crossover rate 0.8 and mutation rate 0.1.\<close>

definition small_ga :: ga_config where
  "small_ga = \<lparr> pop_size = 2, generations = 1, mutation_rate = 1 / 10,
     crossover_rate = 8 / 10, tournament_size = 1, elitism = 0 \<rparr>"

text \<open>An offspring attempt whose draws are all 0: the crossover and the mutation are
  both taken.\<close>

definition first_attempt :: attempt where
  "first_attempt = \<lparr> pick1 = [0], pick2 = [0], u_cross = 0, cut = [0, 1], u_mut = 0, swap = [0, 1] \<rparr>"

text \<open>Two feasible solutions of the scenario, used as parents.\<close>

definition parent_a :: solution where
  "parent_a = [[0, 1, 2, 0], [0, 3, 4, 0]]"

definition parent_b :: solution where
  "parent_b = [[0, 4, 3, 0], [0, 2, 1, 0]]"

text \<open>The default configuration of tabu search, and the state of \<open>run\<close> before its first
  iteration on the model without customers.\<close>

definition default_tabu :: tabu_config where
  "default_tabu = \<lparr> ts_iterations = 500, tabu_size = 50, neighborhood_size = 20 \<rparr>"

definition empty_start :: tabu_state where
  "empty_start = \<lparr> current_solution = [], current_cost = 0, best_solution = [], best_cost = 0,
     stats_best = [], stats_current = [], stats_worst = [], tabu_list = [] \<rparr>"

text \<open>A model in which every location has a demand and the depot's demand is 0, as the
  constructor builds it from lists of matching length.\<close>

definition well_formed :: "CVRP \<Rightarrow> bool" where
  "well_formed P =
     (locations P \<noteq> [] \<and> length (locations P) \<le> length (demands P) \<and> demands P ! 0 = 0)"

text \<open>No customer's own demand exceeds the vehicle capacity.\<close>

definition feasible_demands :: "CVRP \<Rightarrow> bool" where
  "feasible_demands P = (\<forall>c \<in> set (customer_list P). demand_of P c \<le> vehicle_capacity P)"

text \<open>The form of the solutions the strategies build: depot-anchored routes within
  capacity whose interiors together are a permutation of the customers.\<close>

definition good_solution :: "CVRP \<Rightarrow> solution \<Rightarrow> bool" where
  "good_solution P sol =
     ((\<forall>r \<in> set sol. \<exists>seg. r = 0 # seg @ [0] \<and> route_demand P seg \<le> vehicle_capacity P)
      \<and> mset (concat (map interior sol)) = mset (customer_list P))"




section \<open>Properties of route splitting\<close>

lemma py_index_ok:
  "index_ok P c \<Longrightarrow> py_index (demands P) c = Inr (demand_of P c)"
  by (auto simp: index_ok_def py_index_def demand_of_def)

lemma interior_depot_wrap [simp]: "interior (0 # xs @ [0]) = xs"
  by (simp add: interior_def)

lemma interior_snoc_wrap: "interior ((0 # xs) @ [0]) = xs"
  by (simp add: interior_def)

lemma split_loop_returns:
  "\<forall>c \<in> set cs. index_ok P c \<Longrightarrow> \<exists>sol. split_loop P cs routes cur load = Inr sol"
proof (induction cs arbitrary: routes cur load)
  case Nil
  show ?case by simp
next
  case (Cons c cs)
  then have "py_index (demands P) c = Inr (demand_of P c)"
    by (simp add: py_index_ok)
  with Cons show ?case by simp
qed

lemma split_loop_concat:
  "split_loop P cs routes (0 # seg) load = Inr sol \<Longrightarrow>
   concat (map interior sol) = concat (map interior routes) @ seg @ cs"
proof (induction cs arbitrary: routes seg load sol)
  case Nil
  then show ?case by (auto simp: interior_def split: if_splits)
next
  case (Cons c cs)
  show ?case
  proof (cases "py_index (demands P) c")
    case (Inl e)
    with Cons.prems show ?thesis by simp
  next
    case (Inr d)
    show ?thesis
    proof (cases "vehicle_capacity P < load + d")
      case True
      with Cons.prems Inr have "split_loop P cs (routes @ [(0 # seg) @ [0]]) (0 # [c]) d = Inr sol"
        by simp
      from Cons.IH [OF this] show ?thesis
        by (simp add: interior_snoc_wrap)
    next
      case False
      with Cons.prems Inr have "split_loop P cs routes (0 # (seg @ [c])) (load + d) = Inr sol"
        by simp
      from Cons.IH [OF this] show ?thesis by simp
    qed
  qed
qed

text \<open>
  C10.  For every list of customer indices that \<open>demands\<close> can be read at, the split
  returns a solution, and the interiors of its routes, concatenated in route order, are
  exactly the input list: the ordering is preserved and every input element is visited
  exactly once (as a multiset, the visited customers are the input).  The split is a
  function of the model and the list, so splitting the same input twice gives the same
  output.
\<close>

theorem split_preserves_order:
  assumes "\<forall>c \<in> set customers. index_ok P c"
  shows "\<exists>sol. split_to_routes P customers = Inr sol
           \<and> concat (map interior sol) = customers
           \<and> mset (concat (map interior sol)) = mset customers"
proof -
  from split_loop_returns [OF assms] obtain sol
    where sol: "split_loop P customers [] [0] 0 = Inr sol"
    by blast
  from split_loop_concat [OF sol] have "concat (map interior sol) = customers"
    by simp
  with sol show ?thesis
    by (simp add: split_to_routes_def)
qed

lemma demands_scenario: "demands (scenario rnd) = [0, 1, 1, 1, 1]"
  by (simp add: scenario_def mk_CVRP_def)

theorem split_preserves_order_witness:
  "index_ok (scenario exact) 1 \<and> index_ok (scenario exact) 2
   \<and> (\<exists>sol. split_to_routes (scenario exact) [1, 2] = Inr sol
           \<and> concat (map interior sol) = [1, 2]
           \<and> mset (concat (map interior sol)) = mset [1, 2])"
proof -
  have h: "\<forall>c \<in> set [1, 2]. index_ok (scenario exact) c"
    by (simp add: index_ok_def demands_scenario)
  from split_preserves_order [OF h] h show ?thesis
    by simp
qed

lemma split_loop_shape:
  "split_loop P cs routes (0 # seg) load = Inr sol \<Longrightarrow>
   \<forall>r \<in> set routes. \<exists>s. r = 0 # s @ [0] \<Longrightarrow>
   \<forall>r \<in> set sol. \<exists>s. r = 0 # s @ [0]"
proof (induction cs arbitrary: routes seg load sol)
  case Nil
  then show ?case by (auto split: if_splits)
next
  case (Cons c cs)
  show ?case
  proof (cases "py_index (demands P) c")
    case (Inl e)
    with Cons.prems show ?thesis by simp
  next
    case (Inr d)
    show ?thesis
    proof (cases "vehicle_capacity P < load + d")
      case True
      with Cons.prems Inr have run: "split_loop P cs (routes @ [(0 # seg) @ [0]]) (0 # [c]) d = Inr sol"
        by simp
      have "\<forall>r \<in> set (routes @ [(0 # seg) @ [0]]). \<exists>s. r = 0 # s @ [0]"
        using Cons.prems(2) by auto
      from Cons.IH [OF run this] show ?thesis .
    next
      case False
      with Cons.prems Inr have run: "split_loop P cs routes (0 # (seg @ [c])) (load + d) = Inr sol"
        by simp
      from Cons.IH [OF run Cons.prems(2)] show ?thesis .
    qed
  qed
qed

lemma split_loop_capacity:
  "split_loop P cs routes (0 # seg) load = Inr sol \<Longrightarrow>
   \<forall>c \<in> set cs. demand_of P c \<le> vehicle_capacity P \<Longrightarrow>
   load = route_demand P seg \<Longrightarrow>
   seg \<noteq> [] \<longrightarrow> load \<le> vehicle_capacity P \<Longrightarrow>
   \<forall>r \<in> set routes. route_demand P (interior r) \<le> vehicle_capacity P \<Longrightarrow>
   \<forall>r \<in> set sol. route_demand P (interior r) \<le> vehicle_capacity P"
proof (induction cs arbitrary: routes seg load sol)
  case Nil
  then show ?case by (auto simp: interior_snoc_wrap split: if_splits)
next
  case (Cons c cs)
  show ?case
  proof (cases "py_index (demands P) c")
    case (Inl e)
    with Cons.prems show ?thesis by simp
  next
    case (Inr d)
    then have d: "d = demand_of P c"
      by (simp add: demand_of_def)
    have dcap: "d \<le> vehicle_capacity P"
      using Cons.prems(2) d by simp
    show ?thesis
    proof (cases "vehicle_capacity P < load + d")
      case True
      with Cons.prems Inr have run: "split_loop P cs (routes @ [(0 # seg) @ [0]]) (0 # [c]) d = Inr sol"
        by simp
      have "seg \<noteq> []"
      proof
        assume "seg = []"
        with Cons.prems(3) have "load = 0" by (simp add: route_demand_def)
        with True dcap show False by simp
      qed
      with Cons.prems(4) have "load \<le> vehicle_capacity P" by simp
      with Cons.prems(3,5)
      have old: "\<forall>r \<in> set (routes @ [(0 # seg) @ [0]]). route_demand P (interior r) \<le> vehicle_capacity P"
        by (auto simp: interior_snoc_wrap)
      show ?thesis
        by (rule Cons.IH [OF run _ _ _ old]) (use Cons.prems(2) d dcap in \<open>simp_all add: route_demand_def\<close>)
    next
      case False
      with Cons.prems Inr have run: "split_loop P cs routes (0 # (seg @ [c])) (load + d) = Inr sol"
        by simp
      show ?thesis
        by (rule Cons.IH [OF run _ _ _ Cons.prems(5)])
           (use Cons.prems(2,3) d False in \<open>simp_all add: route_demand_def\<close>)
    qed
  qed
qed

text \<open>
  C2 (amended).  For every list of customer indices that \<open>demands\<close> can be read at, the
  split returns a solution in which every route starts and ends at the depot 0; and when
  no customer of the list has a demand above the vehicle capacity, the demands of the
  interior customers of every route sum to at most the capacity.
\<close>

theorem split_routes_feasible:
  assumes "\<forall>c \<in> set customers. index_ok P c"
  shows "\<exists>sol. split_to_routes P customers = Inr sol
           \<and> (\<forall>r \<in> set sol. \<exists>seg. r = 0 # seg @ [0])
           \<and> ((\<forall>c \<in> set customers. demand_of P c \<le> vehicle_capacity P) \<longrightarrow>
                (\<forall>r \<in> set sol. route_demand P (interior r) \<le> vehicle_capacity P))"
proof -
  from split_loop_returns [OF assms] obtain sol
    where sol: "split_loop P customers [] (0 # []) 0 = Inr sol"
    by blast
  have shape: "\<forall>r \<in> set sol. \<exists>seg. r = 0 # seg @ [0]"
    by (rule split_loop_shape [OF sol]) simp
  have cap: "\<forall>r \<in> set sol. route_demand P (interior r) \<le> vehicle_capacity P"
    if "\<forall>c \<in> set customers. demand_of P c \<le> vehicle_capacity P"
    by (rule split_loop_capacity [OF sol that]) (simp_all add: route_demand_def)
  from sol shape cap show ?thesis
    by (auto simp: split_to_routes_def)
qed

lemma demands_overload: "demands overload_instance = [0, 5]" "vehicle_capacity overload_instance = 3"
  by (simp_all add: overload_instance_def mk_CVRP_def)

text \<open>
  C2 as stated fails for a customer whose demand alone exceeds the capacity: the split
  closes the still empty route and puts the customer on a route of its own.
\<close>

theorem split_overloaded_counterexample:
  "split_to_routes overload_instance [1] = Inr [[0, 0], [0, 1, 0]]
   \<and> \<not> route_demand overload_instance (interior [0, 1, 0]) \<le> vehicle_capacity overload_instance"
  by (simp add: split_to_routes_def demands_overload py_index_def route_demand_def
      demand_of_def interior_def)

theorem split_routes_feasible_witness:
  "index_ok (scenario exact) 1 \<and> index_ok (scenario exact) 2 \<and> index_ok (scenario exact) 3
   \<and> demand_of (scenario exact) 1 \<le> vehicle_capacity (scenario exact)
   \<and> split_to_routes (scenario exact) [1, 2, 3] = Inr [[0, 1, 2, 0], [0, 3, 0]]
   \<and> (\<exists>sol. split_to_routes (scenario exact) [1, 2, 3] = Inr sol
         \<and> list_all (\<lambda>r. \<exists>seg. r = 0 # seg @ [0]) sol
         \<and> list_all (\<lambda>r. route_demand (scenario exact) (interior r) \<le> vehicle_capacity (scenario exact)) sol)"
proof -
  have cap: "vehicle_capacity (scenario exact) = 2"
    by (simp add: scenario_def mk_CVRP_def)
  have h: "\<forall>c \<in> set [1, 2, 3]. index_ok (scenario exact) c"
    by (simp add: index_ok_def demands_scenario)
  have d: "\<forall>c \<in> set [1, 2, 3]. demand_of (scenario exact) c \<le> vehicle_capacity (scenario exact)"
    by (simp add: demand_of_def py_index_def demands_scenario cap)
  have run: "split_to_routes (scenario exact) [1, 2, 3] = Inr [[0, 1, 2, 0], [0, 3, 0]]"
    by (simp add: split_to_routes_def demands_scenario py_index_def cap)
  from split_routes_feasible [OF h] d h run show ?thesis
    by (simp add: list_all_iff)
qed

section \<open>Validation can raise\<close>

lemma single_customer_fields:
  "demands single_customer = [0, 1]"
  "vehicle_capacity single_customer = 10"
  "locations single_customer = [(0, 0), (1, 0)]"
  by (simp_all add: single_customer_def mk_CVRP_def)

text \<open>
  C4 fails on the code.  A well-formed solution (a list of lists of integers) that
  contains an empty route and otherwise passes the coverage and capacity checks reaches
  \<open>route[0]\<close> on the empty route, and the call raises \<open>IndexError\<close> instead of returning a
  boolean: one customer, solution \<open>[[0, 1, 0], []]\<close>.
\<close>

theorem validate_solution_empty_route_raises:
  "validate_solution single_customer [[0, 1, 0], []] = Inl IndexError"
  by (simp add: validate_solution_def single_customer_fields interior_def py_index_def)

section \<open>The distance matrix\<close>


lemma set_entry_square: "square n M \<Longrightarrow> square n (set_entry M i j v)"
proof -
  assume sq: "square n M"
  have "length row = n" if "row \<in> set (M[i := (M ! i)[j := v]])" for row
  proof (cases "i < length M")
    case True
    from that have "row = (M ! i)[j := v] \<or> row \<in> set M"
      using set_update_subset_insert [of M i "(M ! i)[j := v]"] by auto
    with sq True show ?thesis by (auto simp: square_def)
  next
    case False
    then have "M[i := (M ! i)[j := v]] = M" by (simp add: list_update_beyond)
    with that sq show ?thesis by (simp add: square_def)
  qed
  with sq show ?thesis by (simp add: square_def set_entry_def)
qed

lemma set_entry_nth:
  "square n M \<Longrightarrow> a < n \<Longrightarrow> b < n \<Longrightarrow>
   set_entry M i j v ! a ! b = (if a = i \<and> b = j then v else M ! a ! b)"
proof (cases "a = i")
  case True
  assume "square n M" "a < n" "b < n"
  with True show ?thesis by (simp add: set_entry_def square_def)
next
  case False
  then show ?thesis by (simp add: set_entry_def)
qed

lemma fill_pair_square: "square n M \<Longrightarrow> square n (fill_pair rnd locs i j M)"
  by (simp add: fill_pair_def Let_def set_entry_square)

lemma fill_pair_nth:
  "square n M \<Longrightarrow> a < n \<Longrightarrow> b < n \<Longrightarrow>
   fill_pair rnd locs i j M ! a ! b =
     (if (a = i \<and> b = j) \<or> (a = j \<and> b = i) then euclid rnd (locs ! i) (locs ! j)
      else M ! a ! b)"
proof -
  assume sq: "square n M" and ab: "a < n" "b < n"
  define d where "d = euclid rnd (locs ! i) (locs ! j)"
  have outer: "set_entry (set_entry M i j d) j i d ! a ! b =
      (if a = j \<and> b = i then d else set_entry M i j d ! a ! b)"
    by (rule set_entry_nth [OF set_entry_square [OF sq] ab])
  have inner: "set_entry M i j d ! a ! b = (if a = i \<and> b = j then d else M ! a ! b)"
    by (rule set_entry_nth [OF sq ab])
  have "set_entry (set_entry M i j d) j i d ! a ! b =
      (if (a = i \<and> b = j) \<or> (a = j \<and> b = i) then d else M ! a ! b)"
    using outer inner by presburger
  then show ?thesis
    unfolding fill_pair_def Let_def d_def .
qed

lemma fold_fill_pair_square:
  "square n M \<Longrightarrow> square n (fold (fill_pair rnd locs i) js M)"
  by (induction js arbitrary: M) (simp_all add: fill_pair_square)

lemma fold_fill_pair_nth:
  "square n M \<Longrightarrow> a < n \<Longrightarrow> b < n \<Longrightarrow>
   fold (fill_pair rnd locs i) js M ! a ! b =
     (if a = i \<and> b \<in> set js then euclid rnd (locs ! i) (locs ! b)
      else if b = i \<and> a \<in> set js then euclid rnd (locs ! i) (locs ! a)
      else M ! a ! b)"
proof (induction js arbitrary: M)
  case Nil
  show ?case by simp
next
  case (Cons j js)
  from Cons.prems have "square n (fill_pair rnd locs i j M)"
    by (simp add: fill_pair_square)
  from Cons.IH [OF this Cons.prems(2,3)] Cons.prems show ?case
    by (auto simp: fill_pair_nth)
qed

lemma fill_row_square: "square n M \<Longrightarrow> square n (fill_row rnd locs i M)"
  by (simp add: fill_row_def fold_fill_pair_square)

lemma fill_row_nth:
  "square (length locs) M \<Longrightarrow> a < length locs \<Longrightarrow> b < length locs \<Longrightarrow>
   fill_row rnd locs i M ! a ! b =
     (if a = i \<and> i < b then euclid rnd (locs ! i) (locs ! b)
      else if b = i \<and> i < a then euclid rnd (locs ! i) (locs ! a)
      else M ! a ! b)"
  by (auto simp: fill_row_def fold_fill_pair_nth)

lemma fold_fill_row_square:
  "square n M \<Longrightarrow> square n (fold (fill_row rnd locs) rows M)"
  by (induction rows arbitrary: M) (simp_all add: fill_row_square)

lemma fold_fill_row_nth:
  "square (length locs) M \<Longrightarrow> a < length locs \<Longrightarrow> b < length locs \<Longrightarrow>
   fold (fill_row rnd locs) rows M ! a ! b =
     (if a < b \<and> a \<in> set rows then euclid rnd (locs ! a) (locs ! b)
      else if b < a \<and> b \<in> set rows then euclid rnd (locs ! b) (locs ! a)
      else M ! a ! b)"
proof (induction rows arbitrary: M)
  case Nil
  show ?case by simp
next
  case (Cons i rows)
  from Cons.prems have "square (length locs) (fill_row rnd locs i M)"
    by (simp add: fill_row_square)
  from Cons.IH [OF this Cons.prems(2,3)] Cons.prems show ?case
    by (auto simp: fill_row_nth)
qed

lemma square_zeros: "square n (replicate n (replicate n 0))"
  by (simp add: square_def)

lemma create_distance_matrix_square:
  "square (length locs) (create_distance_matrix rnd locs)"
  by (simp add: create_distance_matrix_def fold_fill_row_square square_zeros)

lemma create_distance_matrix_nth:
  "a < length locs \<Longrightarrow> b < length locs \<Longrightarrow>
   create_distance_matrix rnd locs ! a ! b = pair_distance rnd locs a b"
  by (simp add: create_distance_matrix_def fold_fill_row_nth square_zeros pair_distance_def)


section \<open>Route distance and its reversal\<close>

lemma position_less: "in_range n i \<Longrightarrow> position n i < n"
  by (auto simp: in_range_def position_def)

lemma py_index_in_range:
  "in_range (length xs) i \<Longrightarrow> py_index xs i = Inr (xs ! position (length xs) i)"
  by (auto simp: in_range_def position_def py_index_def)




section \<open>Double precision rounding\<close>

lemma round_half_even_of_int: "round_half_even (of_int z) = z"
  by (simp add: round_half_even_def)

lemma binary64_representable:
  assumes m: "\<bar>m\<bar> < 2 ^ 53" and k: "- 1074 \<le> k"
  shows "binary64 (of_int m * 2 powi k) = of_int m * 2 powi k"
proof (cases "m = 0")
  case True
  then show ?thesis by (simp add: binary64_def)
next
  case False
  define x :: real where "x = of_int m * 2 powi k"
  define L where "L = \<lfloor>log 2 \<bar>x\<bar>\<rfloor>"
  define e where "e = max (L - 52) (- 1074)"
  have x0: "x \<noteq> 0" using False by (simp add: x_def)
  have absx: "\<bar>x\<bar> = of_int \<bar>m\<bar> * 2 powi k"
    by (simp add: x_def abs_mult)
  have "of_int \<bar>m\<bar> < (2::real) ^ 53"
    using m by (metis of_int_less_numeral_power_cancel_iff)
  then have "\<bar>x\<bar> < 2 ^ 53 * 2 powi k"
    by (simp add: absx)
  also have "\<dots> = 2 powi (53 + k)"
    by (simp add: power_int_add)
  finally have "\<bar>x\<bar> < 2 powi (53 + k)" .
  moreover have "(2::real) powr of_int (53 + k) = 2 powi (53 + k)"
    by (rule powr_real_of_int') simp_all
  ultimately have up: "\<bar>x\<bar> < 2 powr of_int (53 + k)"
    by (simp only:)
  have "2 powr of_int L \<le> \<bar>x\<bar>"
    using x0 floor_log_eq_powr_iff [of "\<bar>x\<bar>" 2 L] by (simp add: L_def)
  from this up have "(2::real) powr of_int L < 2 powr of_int (53 + k)"
    by (rule le_less_trans)
  then have "real_of_int L < of_int (53 + k)"
    by (simp only: powr_less_cancel_iff one_less_numeral_iff semiring_norm)
  then have "L < 53 + k" by (simp only: of_int_less_iff)
  with k have ek: "e \<le> k" by (simp add: e_def)
  define t where "t = nat (k - e)"
  have "(2::real) powi k = 2 powi (int t + e)"
    using ek by (simp add: t_def)
  also have "\<dots> = 2 ^ t * 2 powi e"
    by (simp add: power_int_add)
  finally have split: "(2::real) powi k = 2 ^ t * 2 powi e" .
  have "x / 2 powi e = of_int (m * 2 ^ t)"
    by (simp add: x_def split)
  then have "round_half_even (x / 2 powi e) = m * 2 ^ t"
    by (simp only: round_half_even_of_int)
  then have "of_int (round_half_even (x / 2 powi e)) * 2 powi e = x"
    by (simp add: x_def split)
  with x0 show ?thesis
    by (simp add: binary64_def Let_def x_def [symmetric] L_def [symmetric] e_def [symmetric])
qed

lemma binary64_of_int: "\<bar>m\<bar> < 2 ^ 53 \<Longrightarrow> binary64 (of_int m) = of_int m"
  using binary64_representable [of m 0] by simp


section \<open>The scenario of the specification\<close>

lemma binary64_small:
  "binary64 0 = 0" "binary64 1 = 1" "binary64 2 = 2" "binary64 4 = 4" "binary64 8 = 8"
  using binary64_of_int [of 0] binary64_of_int [of 1] binary64_of_int [of 2]
    binary64_of_int [of 4] binary64_of_int [of 8]
  by simp_all

lemma scenario_matrix:
  "distance_matrix (scenario rnd) =
     create_distance_matrix rnd [(0, 0), (1, 0), (2, 0), (0, 1), (0, 2)]"
  by (simp add: scenario_def mk_CVRP_def)

lemma route_distance_loop_step:
  assumes "square n M" "in_range n a" "in_range n b"
  shows "route_distance_loop rnd M d (a # b # rest) =
     route_distance_loop rnd M (rnd (d + M ! position n a ! position n b)) (b # rest)"
proof -
  from assms have len: "length M = n" and row: "length (M ! position n a) = n"
    by (simp_all add: square_def position_less)
  from assms(2) len have "py_index M a = Inr (M ! position n a)"
    using py_index_in_range [of M a] by simp
  moreover from assms(3) row
  have "py_index (M ! position n a) b = Inr (M ! position n a ! position n b)"
    using py_index_in_range [of "M ! position n a" b] by simp
  ultimately show ?thesis by simp
qed

lemma scenario_square: "square 5 (distance_matrix (scenario rnd))"
proof -
  have "length [(0, 0), (1, 0), (2, 0), (0, 1), (0::real, 2::real)] = 5"
    by simp
  with create_distance_matrix_square [of "[(0, 0), (1, 0), (2, 0), (0, 1), (0, 2)]" rnd]
  show ?thesis
    by (simp only: scenario_matrix)
qed

lemma scenario_entries:
  assumes "rnd 0 = 0" "rnd 1 = 1" "rnd 4 = 4" "rnd 2 = 2"
  shows "distance_matrix (scenario rnd) ! 0 ! 1 = 1"
    and "distance_matrix (scenario rnd) ! 1 ! 2 = 1"
    and "distance_matrix (scenario rnd) ! 2 ! 0 = 2"
    and "distance_matrix (scenario rnd) ! 0 ! 3 = 1"
    and "distance_matrix (scenario rnd) ! 3 ! 4 = 1"
    and "distance_matrix (scenario rnd) ! 4 ! 0 = 2"
  using assms
  by (simp_all add: scenario_matrix create_distance_matrix_nth pair_distance_def euclid_def)

lemma scenario_step:
  assumes "in_range 5 a" "in_range 5 b"
  shows "route_distance_loop rnd (distance_matrix (scenario rnd)) d (a # b # rest) =
     route_distance_loop rnd (distance_matrix (scenario rnd))
       (rnd (d + distance_matrix (scenario rnd) ! position 5 a ! position 5 b)) (b # rest)"
  using assms by (rule route_distance_loop_step [OF scenario_square])

lemma scenario_cost:
  assumes "rnd 0 = 0" "rnd 1 = 1" "rnd 4 = 4" "rnd 2 = 2" "rnd 8 = 8"
  shows "calculate_cost rnd (scenario rnd) [[0, 1, 2, 0], [0, 3, 4, 0]] = Inr 8"
proof -
  note e = scenario_entries [OF assms(1-4)]
  have r1: "calculate_route_distance rnd (scenario rnd) [0, 1, 2, 0] = Inr 4"
    using assms e
    by (simp add: calculate_route_distance_def scenario_step in_range_def position_def
        del: route_distance_loop.simps(1))
  have r2: "calculate_route_distance rnd (scenario rnd) [0, 3, 4, 0] = Inr 4"
    using assms e
    by (simp add: calculate_route_distance_def scenario_step in_range_def position_def
        del: route_distance_loop.simps(1))
  show ?thesis
    using assms by (simp add: calculate_cost_def r1 r2)
qed

lemma scenario_split:
  "split_to_routes (scenario rnd) [1, 2, 3, 4] = Inr [[0, 1, 2, 0], [0, 3, 4, 0]]"
  by (simp add: split_to_routes_def demands_scenario py_index_def scenario_def mk_CVRP_def)

text \<open>
  C5.  In the scenario of the specification the split of the ordering \<open>[1, 2, 3, 4]\<close> is
  exactly the two routes \<open>[0, 1, 2, 0]\<close> and \<open>[0, 3, 4, 0]\<close>, and the total distance of
  that solution is exactly 8, in double precision arithmetic as well as in exact
  arithmetic.
\<close>

theorem scenario_split_and_distance:
  "split_to_routes (scenario binary64) [1, 2, 3, 4] = Inr [[0, 1, 2, 0], [0, 3, 4, 0]]
   \<and> calculate_cost binary64 (scenario binary64) [[0, 1, 2, 0], [0, 3, 4, 0]] = Inr 8
   \<and> split_to_routes (scenario exact) [1, 2, 3, 4] = Inr [[0, 1, 2, 0], [0, 3, 4, 0]]
   \<and> calculate_cost exact (scenario exact) [[0, 1, 2, 0], [0, 3, 4, 0]] = Inr 8"
proof -
  have "calculate_cost binary64 (scenario binary64) [[0, 1, 2, 0], [0, 3, 4, 0]] = Inr 8"
    by (rule scenario_cost) (rule binary64_small)+
  moreover have "calculate_cost exact (scenario exact) [[0, 1, 2, 0], [0, 3, 4, 0]] = Inr 8"
    by (rule scenario_cost) (simp_all add: exact_def)
  ultimately show ?thesis
    by (simp add: scenario_split)
qed

section \<open>Symmetry of the distance matrix; reversing a route\<close>





section \<open>Rounded additions do not commute with reversal\<close>








section \<open>Sampling without replacement\<close>

lemma sample_loop_length: "length (sample_loop pool k draws) = k"
  by (induction k arbitrary: pool draws) (simp_all add: Let_def)

lemma remove_nth_mset:
  "j < length xs \<Longrightarrow> add_mset (xs ! j) (mset (take j xs @ drop (Suc j) xs)) = mset xs"
proof -
  assume "j < length xs"
  then have "xs = take j xs @ xs ! j # drop (Suc j) xs"
    by (rule id_take_nth_drop)
  then have "mset xs = mset (take j xs @ xs ! j # drop (Suc j) xs)"
    by simp
  then show ?thesis by simp
qed

lemma draw_in_range:
  "0 < length pool \<Longrightarrow> (case draws of [] \<Rightarrow> 0 | d # ds \<Rightarrow> d mod length pool) < length pool"
  by (cases draws) simp_all

lemma sample_loop_mset:
  "k \<le> length pool \<Longrightarrow> mset (sample_loop pool k draws) \<subseteq># mset pool"
proof (induction k arbitrary: pool draws)
  case 0
  show ?case by simp
next
  case (Suc k)
  define j where "j = (case draws of [] \<Rightarrow> 0 | d # ds \<Rightarrow> d mod length pool)"
  from Suc.prems have j: "j < length pool"
    unfolding j_def by (intro draw_in_range) auto
  define rest where "rest = take j pool @ drop (Suc j) pool"
  from j Suc.prems have "k \<le> length rest"
    by (simp add: rest_def)
  then have "mset (sample_loop rest k (tl draws)) \<subseteq># mset rest"
    by (rule Suc.IH)
  then have "add_mset (pool ! j) (mset (sample_loop rest k (tl draws))) \<subseteq># add_mset (pool ! j) (mset rest)"
    by simp
  also have "add_mset (pool ! j) (mset rest) = mset pool"
    unfolding rest_def by (rule remove_nth_mset [OF j])
  finally show ?case
    by (simp add: Let_def j_def rest_def)
qed

lemma sample_loop_all: "mset (sample_loop pool (length pool) draws) = mset pool"
proof -
  have "mset (sample_loop pool (length pool) draws) \<subseteq># mset pool"
    by (rule sample_loop_mset) simp
  moreover have "size (mset (sample_loop pool (length pool) draws)) = size (mset pool)"
    by (simp add: sample_loop_length)
  ultimately show ?thesis
    by (metis mset_subset_size nat_less_le subset_mset.le_less)
qed

lemma py_shuffle_mset: "mset (py_shuffle xs draws) = mset xs"
  by (simp add: py_shuffle_def sample_loop_all)

lemma sample_loop_distinct:
  "k \<le> length pool \<Longrightarrow> distinct pool \<Longrightarrow>
   distinct (sample_loop pool k draws) \<and> set (sample_loop pool k draws) \<subseteq> set pool"
proof -
  assume k: "k \<le> length pool" and d: "distinct pool"
  have sub: "mset (sample_loop pool k draws) \<subseteq># mset pool"
    using k by (rule sample_loop_mset)
  have "distinct (sample_loop pool k draws)"
  proof -
    have "count (mset (sample_loop pool k draws)) x \<le> 1" for x
    proof -
      have "count (mset (sample_loop pool k draws)) x \<le> count (mset pool) x"
        using sub by (rule mset_subset_eq_count)
      also have "\<dots> \<le> 1"
        using d by (simp add: distinct_count_atmost_1)
      finally show ?thesis .
    qed
    then show ?thesis
      by (simp add: distinct_count_atmost_1 le_Suc_eq)
  qed
  moreover have "set (sample_loop pool k draws) \<subseteq> set pool"
    using sub by (metis set_mset_mono set_mset_mset)
  ultimately show ?thesis ..
qed



section \<open>Tournament selection\<close>

lemma min_fold_least:
  "fold (\<lambda>y m. if fst y < fst m then y else m) xs x = w \<Longrightarrow>
   w \<in> set (x # xs) \<and> (\<forall>y \<in> set (x # xs). fst w \<le> fst y)"
  for x :: "real \<times> 'a"
proof (induction xs arbitrary: x)
  case Nil
  then show ?case by simp
next
  case (Cons y ys)
  let ?m = "if fst y < fst x then y else x"
  from Cons.prems have "fold (\<lambda>y m. if fst y < fst m then y else m) ys ?m = w"
    by simp
  from Cons.IH [OF this] have w: "w \<in> set (?m # ys)" and least: "\<forall>z \<in> set (?m # ys). fst w \<le> fst z"
    by blast+
  from least have "fst w \<le> fst ?m" by simp
  then have "fst w \<le> fst x" "fst w \<le> fst y"
    by (simp_all split: if_splits)
  with w least show ?case
    by (auto split: if_splits)
qed

lemma py_min_key_least:
  "py_min_key kvs = Inr w \<Longrightarrow> \<exists>kw. (kw, w) \<in> set kvs \<and> (\<forall>k \<in> fst ` set kvs. kw \<le> k)"
  for kvs :: "(real \<times> 'a) list"
proof (cases kvs)
  case Nil
  assume "py_min_key kvs = Inr w"
  with Nil show ?thesis by simp
next
  case (Cons x xs)
  assume "py_min_key kvs = Inr w"
  with Cons obtain m where m: "fold (\<lambda>y m. if fst y < fst m then y else m) xs x = m" and w: "w = snd m"
    by auto
  from min_fold_least [OF m] Cons have "m \<in> set kvs" "\<forall>y \<in> set kvs. fst m \<le> fst y"
    by simp_all
  with w show ?thesis
    by (intro exI [of _ "fst m"]) auto
qed



lemma py_min_key_returns: "kvs \<noteq> [] \<Longrightarrow> \<exists>w. py_min_key kvs = Inr w"
  by (cases kvs) simp_all


lemma scenario_fields:
  "locations (scenario rnd) = [(0, 0), (1, 0), (2, 0), (0, 1), (0, 2)]"
  "vehicle_capacity (scenario rnd) = 2"
  by (simp_all add: scenario_def mk_CVRP_def)




section \<open>The ordered crossover drops the last customer\<close>

lemma fill_loop_length:
  "fill_loop flat2 start stop n child ptr idxs = Inr result \<Longrightarrow> length result = length child"
  by (induction idxs arbitrary: child ptr) (auto simp: Let_def split: if_splits)

lemma sample_pair_less:
  "sample_pair n draws = Inr (a, b) \<Longrightarrow> a < n \<and> b < n \<and> a \<noteq> b"
proof -
  assume s: "sample_pair n draws = Inr (a, b)"
  define picks where "picks = sample_loop [0 ..< n] 2 draws"
  from s have n: "2 \<le> n" and ab: "a = picks ! 0" "b = picks ! 1"
    by (auto simp: sample_pair_def py_sample_def picks_def split: if_splits)
  have len: "length picks = 2"
    by (simp add: picks_def sample_loop_length)
  have "distinct picks \<and> set picks \<subseteq> set [0 ..< n]"
    unfolding picks_def by (rule sample_loop_distinct) (use n in simp_all)
  moreover from len obtain x y where "picks = [x, y]"
    by (cases picks; cases "tl picks") auto
  ultimately show ?thesis
    using ab by auto
qed

lemma crossover_child_length:
  "crossover_child parent1 parent2 draws = Inr child \<Longrightarrow>
   length child = length (filter (\<lambda>node. node \<noteq> 0) (concat parent1)) - 1"
proof -
  assume run: "crossover_child parent1 parent2 draws = Inr child"
  define n where "n = length (flatten_parent parent1)"
  from run obtain a b where ab: "sample_pair n draws = Inr (a, b)"
    by (auto simp: crossover_child_def Let_def n_def split: sum.splits)
  from sample_pair_less [OF ab] have "min a b \<le> n" "max a b \<le> n" "min a b \<le> max a b"
    by linarith+
  with run ab have "length child = n"
    by (auto simp: crossover_child_def Let_def n_def [symmetric] dest!: fill_loop_length)
  then show ?thesis
    by (simp add: n_def flatten_parent_def)
qed

text \<open>
  C6 fails on the code.  The flattening ends with \<open>[:-1]\<close>, which removes the last
  customer of each parent after the depot markers have been filtered out, so the child
  has one position fewer than there are customers.  Both parents below are valid
  solutions of the scenario covering the customers 1 to 4; the child \<open>[1, 2, 4]\<close> is not
  a permutation of them (customer 3 is missing), and the re-split child fails validation.
\<close>

theorem crossover_child_not_a_permutation:
  "validate_solution (scenario exact) parent_a = Inr True
   \<and> validate_solution (scenario exact) parent_b = Inr True
   \<and> flatten_parent parent_a = [1, 2, 3]
   \<and> flatten_parent parent_b = [4, 3, 2]
   \<and> crossover_child parent_a parent_b [0, 1] = Inr [1, 2, 4]
   \<and> mset [1, 2, 4] \<noteq> mset (customer_list (scenario exact))
   \<and> ordered_crossover (scenario exact) parent_a parent_b [0, 1] = Inr [[0, 1, 2, 0], [0, 4, 0]]
   \<and> validate_solution (scenario exact) [[0, 1, 2, 0], [0, 4, 0]] = Inr False"
proof -
  have valid: "validate_solution (scenario exact) parent_a = Inr True"
    "validate_solution (scenario exact) parent_b = Inr True"
    "validate_solution (scenario exact) [[0, 1, 2, 0], [0, 4, 0]] = Inr False"
    by (simp_all add: validate_solution_def parent_a_def parent_b_def interior_def
        scenario_fields demands_scenario py_index_def)
  have flat: "flatten_parent parent_a = [1, 2, 3]" "flatten_parent parent_b = [4, 3, 2]"
    by code_simp+
  have child: "crossover_child parent_a parent_b [0, 1] = Inr [1, 2, 4]"
    by code_simp
  have "split_to_routes (scenario exact) [1, 2, 4] = Inr [[0, 1, 2, 0], [0, 4, 0]]"
    by (simp add: split_to_routes_def demands_scenario py_index_def scenario_fields)
  then have "ordered_crossover (scenario exact) parent_a parent_b [0, 1] = Inr [[0, 1, 2, 0], [0, 4, 0]]"
    by (simp only: ordered_crossover_def child sum.case)
  moreover have "mset [1, 2, 4] \<noteq> mset (customer_list (scenario exact))"
    by (simp add: customer_list_def scenario_fields eval_nat_numeral)
  ultimately show ?thesis
    using valid flat child by simp
qed

section \<open>The genetic algorithm on a model without customers\<close>

lemma depot_only_fields:
  "locations depot_only = [(0, 0)]"
  "demands depot_only = [0]"
  "vehicle_capacity depot_only = 10"
  by (simp_all add: depot_only_def mk_CVRP_def)

lemma depot_only_random_solution: "random_solution depot_only draws = Inr []"
  by (simp add: random_solution_def customer_list_def depot_only_fields py_shuffle_def
      split_to_routes_def)

lemma depot_only_valid: "validate_solution depot_only [] = Inr True"
  by (simp add: validate_solution_def depot_only_fields)

lemma empty_solution_cost: "calculate_cost rnd P [] = Inr 0"
  by (simp add: calculate_cost_def)

lemma empty_parents_crossover: "ordered_crossover P [] [] draws = Inl ValueError"
  by (simp add: ordered_crossover_def crossover_child_def flatten_parent_def sample_pair_def
      py_sample_def)

lemma empty_solution_mutate:
  "u < mutation_rate cfg \<Longrightarrow> mutate P cfg [] u draws = Inl ValueError"
  by (simp add: mutate_def sample_pair_def py_sample_def)

lemma small_ga_fields:
  "pop_size small_ga = 2" "generations small_ga = 1" "mutation_rate small_ga = 1 / 10"
  "crossover_rate small_ga = 8 / 10" "tournament_size small_ga = 1" "elitism small_ga = 0"
  by (simp_all add: small_ga_def)

lemma first_attempt_fields:
  "pick1 first_attempt = [0]" "pick2 first_attempt = [0]" "u_cross first_attempt = 0"
  "cut first_attempt = [0, 1]" "u_mut first_attempt = 0" "swap first_attempt = [0, 1]"
  by (simp_all add: first_attempt_def)

lemma depot_only_population:
  "initialize_population depot_only small_ga [[], []] = Returned [[], []]"
  by (simp add: initialize_population_def small_ga_fields depot_only_random_solution
      depot_only_valid)

lemma depot_only_tournament:
  "tournament_selection exact depot_only small_ga [[], []] [0] = Inr []"
  by (simp add: tournament_selection_def small_ga_fields py_sample_def empty_solution_cost)

lemma depot_only_child:
  "make_child exact depot_only small_ga [[], []] first_attempt = Inl ValueError"
  by (simp add: make_child_def first_attempt_fields depot_only_tournament
      empty_parents_crossover small_ga_fields)

text \<open>
  C3 fails on the code for the genetic algorithm.  With no customers every individual is
  the empty solution; the first offspring that takes the crossover branch flattens its
  parents to the empty list and calls \<open>random.sample(range(0), 2)\<close>, which raises
  \<open>ValueError\<close> (the mutation does the same when it is taken), so \<open>run\<close> raises instead
  of returning an empty-route result.
\<close>

theorem ga_without_customers_raises:
  "ga_run exact depot_only small_ga [[], []] [[first_attempt]] = Raised ValueError"
proof -
  have "generation exact depot_only small_ga
          (\<lparr> best_series = [], worst_series = [] \<rparr>, [[], []]) [first_attempt]
        = Raised ValueError"
    by (simp add: generation_def empty_solution_cost py_prefix_def small_ga_fields
        depot_only_child)
  then show ?thesis
    by (simp add: ga_run_def depot_only_population small_ga_fields)
qed

section \<open>One iteration of tabu search\<close>

lemma select_candidate_spec:
  "select_candidate tabu best pairs = r \<Longrightarrow>
   (case r of
      None \<Rightarrow> best = None \<and> (\<forall>(n, c) \<in> set pairs. str_solution n \<in> set tabu)
    | Some (n, c) \<Rightarrow>
        (Some (n, c) = best \<or> ((n, c) \<in> set pairs \<and> str_solution n \<notin> set tabu))
        \<and> (\<forall>(m, k) \<in> set pairs. str_solution m \<notin> set tabu \<longrightarrow> c \<le> k)
        \<and> (\<forall>b kb. best = Some (b, kb) \<longrightarrow> c \<le> kb))"
proof (induction pairs arbitrary: best)
  case Nil
  then show ?case by (auto split: option.splits)
next
  case (Cons p pairs)
  obtain neighbor cost where p: "p = (neighbor, cost)"
    by (cases p)
  let ?taken = "(case best of None \<Rightarrow> True | Some (b, kb) \<Rightarrow> cost < kb) \<and> str_solution neighbor \<notin> set tabu"
  let ?best' = "if ?taken then Some (neighbor, cost) else best"
  from Cons.prems p have "select_candidate tabu ?best' pairs = r"
    by simp
  from Cons.IH [OF this] show ?case
    unfolding p by (cases r; cases best) (auto split: if_splits)
qed

lemma select_candidate_none:
  "select_candidate tabu None pairs = None \<longleftrightarrow> filter (\<lambda>(n, c). str_solution n \<notin> set tabu) pairs = []"
proof
  assume "select_candidate tabu None pairs = None"
  from select_candidate_spec [OF this] show "filter (\<lambda>(n, c). str_solution n \<notin> set tabu) pairs = []"
    by (auto simp: filter_empty_conv)
next
  assume empty: "filter (\<lambda>(n, c). str_solution n \<notin> set tabu) pairs = []"
  show "select_candidate tabu None pairs = None"
  proof (cases "select_candidate tabu None pairs")
    case None
    then show ?thesis .
  next
    case (Some nc)
    obtain n c where "nc = (n, c)" by (cases nc)
    with Some select_candidate_spec [of tabu None pairs "Some (n, c)"]
    have "(n, c) \<in> set pairs" "str_solution n \<notin> set tabu"
      by auto
    with empty show ?thesis
      by (auto simp: filter_empty_conv)
  qed
qed

lemma update_stats_keeps:
  "update_stats b c st = Inr st' \<Longrightarrow>
   current_solution st' = current_solution st \<and> current_cost st' = current_cost st
   \<and> best_solution st' = best_solution st \<and> best_cost st' = best_cost st"
  by (auto simp: update_stats_def split: sum.splits)

lemma update_stats_keeps_tabu:
  "update_stats b c st = Inr st' \<Longrightarrow> tabu_list st' = tabu_list st"
  by (auto simp: update_stats_def split: sum.splits)

lemma update_stats_returns: "\<exists>st'. update_stats b c st = Inr st'"
  by (cases "stats_best st @ [b]") (simp_all add: update_stats_def)

text \<open>
  The behaviour of an iteration, for every state and every random outcome.  With
  \<open>allowed\<close> the neighbours whose signature is not in the tabu list: if there is none,
  the current solution, the current cost, the best solution and the tabu list are
  unchanged; otherwise a lowest-cost allowed neighbour is chosen, the best solution is
  replaced exactly when the chosen cost is below the best cost, and, when the chosen
  neighbour is a non-empty list of routes, it becomes the current solution whatever its
  cost and its signature is appended to the tabu list, the oldest entry being removed
  when the list has grown beyond \<open>tabu_size\<close>.
\<close>

lemma tabu_iteration_spec:
  assumes run: "tabu_iteration rnd P cfg st draws = Inr st'"
  shows "\<exists>neighbors costs.
      generate_neighbors P cfg (current_solution st) draws = Inr neighbors
    \<and> costs_of rnd P neighbors = Inr costs
    \<and> (let allowed = filter (\<lambda>(n, c). str_solution n \<notin> set (tabu_list st)) (zip neighbors costs)
       in (allowed = [] \<longrightarrow>
              current_solution st' = current_solution st \<and> current_cost st' = current_cost st
            \<and> best_solution st' = best_solution st \<and> best_cost st' = best_cost st
            \<and> tabu_list st' = tabu_list st)
        \<and> (allowed \<noteq> [] \<longrightarrow>
              (\<exists>chosen cost.
                  (chosen, cost) \<in> set allowed
                \<and> (\<forall>(n, c) \<in> set allowed. cost \<le> c)
                \<and> (if cost < best_cost st
                    then best_solution st' = chosen \<and> best_cost st' = cost
                    else best_solution st' = best_solution st \<and> best_cost st' = best_cost st)
                \<and> (chosen \<noteq> [] \<longrightarrow>
                      current_solution st' = chosen \<and> current_cost st' = cost
                    \<and> tabu_list st' =
                        (if tabu_size cfg < int (length (tabu_list st @ [str_solution chosen]))
                         then tl (tabu_list st @ [str_solution chosen])
                         else tabu_list st @ [str_solution chosen])))))"
proof -
  from run obtain neighbors where nb: "generate_neighbors P cfg (current_solution st) draws = Inr neighbors"
    by (auto simp: tabu_iteration_def split: sum.splits)
  with run obtain costs where costs: "costs_of rnd P neighbors = Inr costs"
    by (auto simp: tabu_iteration_def split: sum.splits)
  define pairs where "pairs = zip neighbors costs"
  define allowed where "allowed = filter (\<lambda>(n, c). str_solution n \<notin> set (tabu_list st)) pairs"
  define candidate where "candidate = select_candidate (tabu_list st) None pairs"
  from run nb costs
  have stats: "update_stats (best_cost (move_to cfg candidate (update_best candidate st)))
      (current_cost (move_to cfg candidate (update_best candidate st)))
      (move_to cfg candidate (update_best candidate st)) = Inr st'"
    by (simp add: tabu_iteration_def Let_def candidate_def pairs_def)
  from update_stats_keeps [OF stats] update_stats_keeps_tabu [OF stats]
  have keep: "current_solution st' = current_solution (move_to cfg candidate (update_best candidate st))"
    "current_cost st' = current_cost (move_to cfg candidate (update_best candidate st))"
    "best_solution st' = best_solution (move_to cfg candidate (update_best candidate st))"
    "best_cost st' = best_cost (move_to cfg candidate (update_best candidate st))"
    "tabu_list st' = tabu_list (move_to cfg candidate (update_best candidate st))"
    by simp_all
  show ?thesis
  proof (cases candidate)
    case None
    then have empty: "allowed = []"
      by (simp add: candidate_def allowed_def select_candidate_none)
    from keep None have "current_solution st' = current_solution st \<and> current_cost st' = current_cost st
        \<and> best_solution st' = best_solution st \<and> best_cost st' = best_cost st
        \<and> tabu_list st' = tabu_list st"
      by (simp add: move_to_def update_best_def)
    with empty nb costs show ?thesis
      unfolding Let_def allowed_def pairs_def by blast
  next
    case (Some nc)
    obtain chosen cost where nc: "nc = (chosen, cost)"
      by (cases nc)
    from Some nc have sel: "select_candidate (tabu_list st) None pairs = Some (chosen, cost)"
      by (simp add: candidate_def)
    from select_candidate_spec [OF sel]
    have mem: "(chosen, cost) \<in> set allowed" and least: "\<forall>(n, c) \<in> set allowed. cost \<le> c"
      by (auto simp: allowed_def)
    then have ne: "allowed \<noteq> []"
      by auto
    define pushed where "pushed = tabu_list st @ [str_solution chosen]"
    have best: "if cost < best_cost st
        then best_solution st' = chosen \<and> best_cost st' = cost
        else best_solution st' = best_solution st \<and> best_cost st' = best_cost st"
      by (simp add: keep Some nc move_to_def update_best_def Let_def)
    have cur: "current_solution st' = chosen \<and> current_cost st' = cost
        \<and> tabu_list st' = (if tabu_size cfg < int (length pushed) then tl pushed else pushed)"
      if "chosen \<noteq> []"
      using that by (simp add: keep Some nc move_to_def update_best_def Let_def pushed_def)
    have "\<exists>chosen cost.
          (chosen, cost) \<in> set allowed
        \<and> (\<forall>(n, c) \<in> set allowed. cost \<le> c)
        \<and> (if cost < best_cost st
            then best_solution st' = chosen \<and> best_cost st' = cost
            else best_solution st' = best_solution st \<and> best_cost st' = best_cost st)
        \<and> (chosen \<noteq> [] \<longrightarrow>
              current_solution st' = chosen \<and> current_cost st' = cost
            \<and> tabu_list st' =
                (if tabu_size cfg < int (length (tabu_list st @ [str_solution chosen]))
                 then tl (tabu_list st @ [str_solution chosen])
                 else tabu_list st @ [str_solution chosen]))"
      using mem least best cur unfolding pushed_def by blast
    with ne nb costs show ?thesis
      unfolding Let_def allowed_def pairs_def by blast
  qed
qed

lemma neighbors_loop_skips:
  "length (concat (map interior solution)) < 2 \<Longrightarrow> neighbors_loop P solution k draws = Inr []"
  by (induction k arbitrary: draws) (simp_all add: swap_neighbor_def Let_def)

lemma empty_start_fields:
  "current_solution empty_start = []" "current_cost empty_start = 0"
  "best_solution empty_start = []" "best_cost empty_start = 0"
  "stats_best empty_start = []" "stats_current empty_start = []" "stats_worst empty_start = []"
  "tabu_list empty_start = []"
  by (simp_all add: empty_start_def)

lemma empty_solution_neighbors: "generate_neighbors P cfg [] draws = Inr [[]]"
  by (simp add: generate_neighbors_def neighbors_loop_skips)

lemma str_empty_solution: "str_solution [] = ''[]''"
  by (simp add: str_solution_def)

text \<open>
  C8 fails on the code in one case.  On a model without customers the current solution
  is the empty list; it is its own only neighbour, its signature \<open>[]\<close> is not in the
  (empty) tabu list, and it is selected as best candidate.  The update is guarded by
  \<open>if best_candidate:\<close>, which is false for an empty list, so the signature is not
  pushed: after the iteration the tabu list is still empty.
\<close>

theorem tabu_empty_candidate_not_pushed:
  "generate_neighbors depot_only default_tabu (current_solution empty_start) [] = Inr [[]]
   \<and> costs_of exact depot_only [[]] = Inr [0]
   \<and> str_solution [] \<notin> set (tabu_list empty_start)
   \<and> select_candidate (tabu_list empty_start) None (zip [[]] [0]) = Some ([], 0)
   \<and> tabu_iteration exact depot_only default_tabu empty_start []
       = Inr (empty_start\<lparr> stats_best := [0], stats_current := [0], stats_worst := [0] \<rparr>)
   \<and> tabu_list (empty_start\<lparr> stats_best := [0], stats_current := [0], stats_worst := [0] \<rparr>) = []"
  by (simp add: empty_start_fields empty_solution_neighbors empty_solution_cost
      str_empty_solution tabu_iteration_def update_best_def move_to_def update_stats_def)

section \<open>Solutions that pass the validation\<close>

lemma customer_list_props:
  "distinct (customer_list P)"
  "c \<in> set (customer_list P) \<longleftrightarrow> 0 < c \<and> c < int (length (locations P))"
  "length (customer_list P) = length (locations P) - 1"
proof -
  show "distinct (customer_list P)"
    by (simp add: customer_list_def distinct_map inj_on_def)
  show "c \<in> set (customer_list P) \<longleftrightarrow> 0 < c \<and> c < int (length (locations P))"
  proof
    assume "c \<in> set (customer_list P)"
    then show "0 < c \<and> c < int (length (locations P))"
      by (auto simp: customer_list_def)
  next
    assume "0 < c \<and> c < int (length (locations P))"
    then have "nat c \<in> set [1 ..< length (locations P)]" "int (nat c) = c"
      by auto
    then show "c \<in> set (customer_list P)"
      unfolding customer_list_def by (metis image_eqI set_map)
  qed
  show "length (customer_list P) = length (locations P) - 1"
    by (simp add: customer_list_def)
qed







lemma split_good:
  assumes wf: "well_formed P" and feas: "feasible_demands P"
    and perm: "mset perm = mset (customer_list P)"
  shows "\<exists>sol. split_to_routes P perm = Inr sol \<and> good_solution P sol"
proof -
  from perm have set_eq: "set perm = set (customer_list P)"
    by (rule mset_eq_setD)
  have ok: "\<forall>c \<in> set perm. index_ok P c"
    unfolding set_eq using wf by (auto simp: customer_list_props(2) index_ok_def well_formed_def)
  have small: "\<forall>c \<in> set perm. demand_of P c \<le> vehicle_capacity P"
    unfolding set_eq using feas by (simp add: feasible_demands_def)
  from split_loop_returns [OF ok] obtain sol where sol: "split_loop P perm [] (0 # []) 0 = Inr sol"
    by blast
  have shape: "\<forall>r \<in> set sol. \<exists>seg. r = 0 # seg @ [0]"
    by (rule split_loop_shape [OF sol]) simp
  have cap: "\<forall>r \<in> set sol. route_demand P (interior r) \<le> vehicle_capacity P"
    by (rule split_loop_capacity [OF sol small]) (simp_all add: route_demand_def)
  have "\<exists>seg. r = 0 # seg @ [0] \<and> route_demand P seg \<le> vehicle_capacity P" if "r \<in> set sol" for r
  proof -
    from shape that obtain seg where "r = 0 # seg @ [0]" by blast
    moreover from this cap that have "route_demand P seg \<le> vehicle_capacity P" by auto
    ultimately show ?thesis by blast
  qed
  moreover from split_loop_concat [OF sol] perm
  have "mset (concat (map interior sol)) = mset (customer_list P)"
    by simp
  ultimately have "good_solution P sol"
    by (simp add: good_solution_def)
  with sol show ?thesis
    by (auto simp: split_to_routes_def)
qed

lemma random_solution_good:
  "well_formed P \<Longrightarrow> feasible_demands P \<Longrightarrow>
   \<exists>sol. random_solution P draws = Inr sol \<and> good_solution P sol"
  unfolding random_solution_def by (rule split_good) (simp_all add: py_shuffle_mset)



section \<open>What the strategies return\<close>

subsection \<open>Random search\<close>




subsection \<open>Simulated annealing\<close>






subsection \<open>Tabu search\<close>








subsection \<open>Greedy construction\<close>

lemma candidates_of_filter:
  "candidates_of P cs load = Inr cands \<Longrightarrow>
   cands = filter (\<lambda>c. demand_of P c + load \<le> vehicle_capacity P) cs"
proof (induction cs arbitrary: cands)
  case Nil
  then show ?case by simp
next
  case (Cons c cs)
  from Cons.prems obtain d rest where d: "py_index (demands P) c = Inr d"
    and rest: "candidates_of P cs load = Inr rest"
    and cands: "cands = (if d + load \<le> vehicle_capacity P then c # rest else rest)"
    by (auto split: sum.splits)
  from d have "demand_of P c = d"
    by (simp add: demand_of_def)
  with Cons.IH [OF rest] cands show ?case
    by simp
qed

lemma distances_from_snd: "distances_from P last_city cands = Inr keyed \<Longrightarrow> map snd keyed = cands"
  by (induction cands arbitrary: keyed) (auto split: sum.splits)

lemma py_min_key_mem: "py_min_key kvs = Inr w \<Longrightarrow> w \<in> snd ` set kvs"
  for kvs :: "(real \<times> 'a) list"
  using py_min_key_least [of kvs w] by force

lemma greedy_loop_good:
  assumes wf: "well_formed P" and feas: "feasible_demands P"
  shows "greedy_loop fuel P remaining routes (0 # seg) load = Returned sol \<Longrightarrow>
     \<forall>r \<in> set routes. \<exists>s. r = 0 # s @ [0] \<and> route_demand P s \<le> vehicle_capacity P \<Longrightarrow>
     load = route_demand P seg \<Longrightarrow>
     seg \<noteq> [] \<longrightarrow> load \<le> vehicle_capacity P \<Longrightarrow>
     mset (concat (map interior routes)) + mset seg + mset remaining = mset (customer_list P) \<Longrightarrow>
     good_solution P sol"
proof (induction fuel arbitrary: remaining routes seg load)
  case 0
  show ?case
  proof (cases remaining)
    case Nil
    with "0.prems" show ?thesis
      by (auto simp: good_solution_def interior_snoc_wrap split: if_splits)
  next
    case (Cons c cs)
    with "0.prems"(1) show ?thesis by simp
  qed
next
  case (Suc fuel)
  show ?case
  proof (cases remaining)
    case Nil
    with Suc.prems show ?thesis
      by (auto simp: good_solution_def interior_snoc_wrap split: if_splits)
  next
    case (Cons c cs)
    note run = Suc.prems(1) [unfolded Cons]
    from run obtain cands where cands: "candidates_of P (c # cs) load = Inr cands"
      by (auto split: sum.splits)
    from candidates_of_filter [OF cands]
    have filt: "cands = filter (\<lambda>x. demand_of P x + load \<le> vehicle_capacity P) remaining"
      by (simp add: Cons)
    have sub: "set remaining \<subseteq> set (customer_list P)"
    proof -
      have "mset remaining \<subseteq># mset (customer_list P)"
        using Suc.prems(5) by (metis mset_subset_eq_add_right)
      then show ?thesis
        by (metis set_mset_mono set_mset_mset)
    qed
    show ?thesis
    proof (cases "cands = []")
      case True
      have "seg \<noteq> []"
      proof
        assume "seg = []"
        with Suc.prems(3) have "load = 0" by (simp add: route_demand_def)
        with sub feas have "\<forall>x \<in> set remaining. demand_of P x + load \<le> vehicle_capacity P"
          by (auto simp: feasible_demands_def)
        with filt have "cands = remaining" by simp
        with True Cons show False by simp
      qed
      with Suc.prems(4) have load: "load \<le> vehicle_capacity P" by simp
      from run cands True
      have next_run: "greedy_loop fuel P remaining (routes @ [(0 # seg) @ [0]]) (0 # []) 0 = Returned sol"
        by (simp add: Cons)
      show ?thesis
      proof (rule Suc.IH [OF next_run])
        show "\<forall>r \<in> set (routes @ [(0 # seg) @ [0]]).
            \<exists>s. r = 0 # s @ [0] \<and> route_demand P s \<le> vehicle_capacity P"
          using Suc.prems(2,3) load by auto
        show "0 = route_demand P []" by (simp add: route_demand_def)
        show "[] \<noteq> [] \<longrightarrow> 0 \<le> vehicle_capacity P" by simp
        show "mset (concat (map interior (routes @ [(0 # seg) @ [0]]))) + mset [] + mset remaining
            = mset (customer_list P)"
          using Suc.prems(5) by (simp add: interior_snoc_wrap)
      qed
    next
      case False
      with run cands obtain keyed next_city d
        where keyed: "distances_from P (last (0 # seg)) cands = Inr keyed"
          and pick: "py_min_key keyed = Inr next_city"
          and d: "py_index (demands P) next_city = Inr d"
          and next_run: "greedy_loop fuel P (remove1 next_city remaining) routes
              (0 # (seg @ [next_city])) (load + d) = Returned sol"
        by (auto simp: Cons split: sum.splits)
      from py_min_key_mem [OF pick] distances_from_snd [OF keyed] have "next_city \<in> set cands"
        by (metis set_map)
      with filt have mem: "next_city \<in> set remaining"
        and fits: "demand_of P next_city + load \<le> vehicle_capacity P"
        by simp_all
      from d have dd: "demand_of P next_city = d"
        by (simp add: demand_of_def)
      show ?thesis
      proof (rule Suc.IH [OF next_run Suc.prems(2)])
        show "load + d = route_demand P (seg @ [next_city])"
          using Suc.prems(3) dd by (simp add: route_demand_def)
        show "seg @ [next_city] \<noteq> [] \<longrightarrow> load + d \<le> vehicle_capacity P"
          using fits dd by simp
        have "mset remaining = add_mset next_city (mset (remove1 next_city remaining))"
          using mem by simp
        with Suc.prems(5)
        have "mset (concat (map interior routes)) + mset seg
            + add_mset next_city (mset (remove1 next_city remaining)) = mset (customer_list P)"
          by (simp only:)
        then show "mset (concat (map interior routes)) + mset (seg @ [next_city])
            + mset (remove1 next_city remaining) = mset (customer_list P)"
          by (simp del: mset_remove1 add: ac_simps)
      qed
    qed
  qed
qed

lemma greedy_solution_good:
  assumes "well_formed P" "feasible_demands P" "greedy_solution fuel P draws = Returned sol"
  shows "good_solution P sol"
  by (rule greedy_loop_good [OF assms(1,2) assms(3) [unfolded greedy_solution_def]])
     (simp_all add: route_demand_def py_shuffle_mset)





subsection \<open>The genetic algorithm\<close>








section \<open>Runs that return a result\<close>

text \<open>
  On a model whose distance matrix is the square matrix the constructor builds, with a
  demand for every location and no customer's demand above the capacity, the random and
  the greedy strategy return a result: neither raises, and the \<open>while\<close> loop of the greedy
  construction ends after at most two passes per customer.
\<close>

lemma route_distance_loop_returns:
  "square n M \<Longrightarrow> \<forall>x \<in> set r. in_range n x \<Longrightarrow> \<exists>c. route_distance_loop rnd M d r = Inr c"
proof (induction r arbitrary: d)
  case Nil
  show ?case by simp
next
  case (Cons a r)
  show ?case
  proof (cases r)
    case Nil
    then show ?thesis by simp
  next
    case (Cons b rest)
    from Cons.prems \<open>r = b # rest\<close> have a: "in_range n a" and b: "in_range n b"
      by simp_all
    from Cons.prems have "\<forall>x \<in> set r. in_range n x"
      by simp
    from Cons.IH [OF Cons.prems(1) this] show ?thesis
      unfolding \<open>r = b # rest\<close> route_distance_loop_step [OF Cons.prems(1) a b] by blast
  qed
qed

lemma cost_loop_returns:
  "square n (distance_matrix P) \<Longrightarrow> \<forall>r \<in> set sol. \<forall>x \<in> set r. in_range n x \<Longrightarrow>
   \<exists>c. cost_loop rnd P acc sol = Inr c"
proof (induction sol arbitrary: acc)
  case Nil
  show ?case by simp
next
  case (Cons r sol)
  from Cons.prems have "\<forall>x \<in> set r. in_range n x"
    by simp
  from route_distance_loop_returns [OF Cons.prems(1) this, of rnd 0] obtain d
    where d: "calculate_route_distance rnd P r = Inr d"
    by (auto simp: calculate_route_distance_def)
  from Cons.prems have "\<forall>r \<in> set sol. \<forall>x \<in> set r. in_range n x"
    by simp
  from Cons.IH [OF Cons.prems(1) this] d show ?case
    by simp
qed

lemma good_solution_in_range:
  assumes good: "good_solution P sol" and ne: "locations P \<noteq> []"
  shows "\<forall>r \<in> set sol. \<forall>x \<in> set r. in_range (length (locations P)) x"
proof (intro ballI)
  fix r x
  assume r: "r \<in> set sol" and x: "x \<in> set r"
  from good r obtain seg where seg: "r = 0 # seg @ [0]"
    by (auto simp: good_solution_def)
  then have "interior r = seg"
    by (simp add: interior_snoc_wrap)
  with r have "set seg \<subseteq> set (concat (map interior sol))"
    by auto
  also from good have "set (concat (map interior sol)) = set (customer_list P)"
    unfolding good_solution_def by (metis mset_eq_setD)
  finally have "\<forall>c \<in> set seg. 0 < c \<and> c < int (length (locations P))"
    by (auto simp: customer_list_props(2))
  with x seg ne show "in_range (length (locations P)) x"
    by (auto simp: in_range_def)
qed

lemma good_solution_cost:
  assumes "square (length (locations P)) (distance_matrix P)" "locations P \<noteq> []"
    and "good_solution P sol"
  shows "\<exists>c. calculate_cost rnd P sol = Inr c"
  unfolding calculate_cost_def
  by (rule cost_loop_returns [OF assms(1) good_solution_in_range [OF assms(3,2)]])

lemma py_min_max_returns:
  "costs \<noteq> [] \<Longrightarrow> (\<exists>lo. py_min costs = Inr lo) \<and> (\<exists>hi. py_max costs = Inr hi)"
  by (cases costs) simp_all

lemma random_iteration_returns:
  assumes wf: "well_formed P" and feas: "feasible_demands P"
    and sq: "square (length (locations P)) (distance_matrix P)"
  shows "\<exists>st'. random_iteration rnd P st draws = Inr st' \<and> rs_costs st' \<noteq> []"
proof -
  from random_solution_good [OF wf feas, of draws] obtain sol
    where sol: "random_solution P draws = Inr sol" and good: "good_solution P sol"
    by blast
  from wf have ne: "locations P \<noteq> []"
    by (simp add: well_formed_def)
  from good_solution_cost [OF sq ne good, of rnd] obtain cost
    where cost: "calculate_cost rnd P sol = Inr cost"
    by blast
  from py_min_max_returns [of "rs_costs st @ [cost]"] obtain lo hi
    where "py_min (rs_costs st @ [cost]) = Inr lo" "py_max (rs_costs st @ [cost]) = Inr hi"
    by auto
  with sol cost show ?thesis
    by (simp add: random_iteration_def Let_def)
qed

lemma random_loop_returns:
  assumes wf: "well_formed P" and feas: "feasible_demands P"
    and sq: "square (length (locations P)) (distance_matrix P)"
  shows "\<exists>st'. random_loop rnd P n st seeds = Inr st' \<and> (rs_costs st \<noteq> [] \<or> 0 < n \<longrightarrow> rs_costs st' \<noteq> [])"
proof (induction n arbitrary: st seeds)
  case 0
  show ?case by simp
next
  case (Suc n)
  from random_iteration_returns [OF wf feas sq, of rnd st "case seeds of [] \<Rightarrow> [] | d # ds \<Rightarrow> d"]
  obtain mid where mid: "random_iteration rnd P st (case seeds of [] \<Rightarrow> [] | d # ds \<Rightarrow> d) = Inr mid"
    and ne: "rs_costs mid \<noteq> []"
    by blast
  from Suc.IH [of mid "tl seeds"] ne mid show ?case
    by auto
qed

lemma random_run_returns:
  assumes wf: "well_formed P" and feas: "feasible_demands P"
    and sq: "square (length (locations P)) (distance_matrix P)"
    and n: "1 \<le> num_iterations"
  shows "\<exists>res. random_run rnd P num_iterations seeds = Inr res"
proof -
  from n have "0 < nat num_iterations"
    by simp
  with random_loop_returns [OF wf feas sq, of rnd "nat num_iterations"
      "\<lparr> rs_best_solution = None, rs_best_cost = Infinity, rs_costs = [],
         rs_best_series = [], rs_worst_series = [] \<rparr>" seeds]
  obtain st where st: "random_loop rnd P (nat num_iterations)
      \<lparr> rs_best_solution = None, rs_best_cost = Infinity, rs_costs = [],
        rs_best_series = [], rs_worst_series = [] \<rparr> seeds = Inr st"
    and ne: "rs_costs st \<noteq> []"
    by blast
  from py_min_max_returns [OF ne] st show ?thesis
    by (auto simp: random_run_def)
qed

lemma candidates_of_returns:
  "\<forall>c \<in> set cs. index_ok P c \<Longrightarrow> \<exists>cands. candidates_of P cs load = Inr cands"
  by (induction cs) (auto simp: py_index_ok)

lemma distances_from_returns:
  "square n (distance_matrix P) \<Longrightarrow> in_range n last_city \<Longrightarrow> \<forall>c \<in> set cands. in_range n c \<Longrightarrow>
   \<exists>keyed. distances_from P last_city cands = Inr keyed"
proof (induction cands)
  case Nil
  show ?case by simp
next
  case (Cons c cands)
  from Cons.prems have len: "length (distance_matrix P) = n"
    and row: "length (distance_matrix P ! position n last_city) = n"
    by (simp_all add: square_def position_less)
  from Cons.prems(2) len
  have "py_index (distance_matrix P) last_city = Inr (distance_matrix P ! position n last_city)"
    using py_index_in_range [of "distance_matrix P" last_city] by simp
  moreover from Cons.prems(3) row
  have "py_index (distance_matrix P ! position n last_city) c
      = Inr (distance_matrix P ! position n last_city ! position n c)"
    using py_index_in_range [of "distance_matrix P ! position n last_city" c] by simp
  moreover from Cons.IH [OF Cons.prems(1,2)] Cons.prems(3)
  obtain keyed where "distances_from P last_city cands = Inr keyed"
    by auto
  ultimately show ?case
    by simp
qed

lemma customer_in_range:
  "c \<in> set (customer_list P) \<Longrightarrow> in_range (length (locations P)) c"
  by (simp add: customer_list_props(2) in_range_def)

lemma customer_index_ok:
  "well_formed P \<Longrightarrow> c \<in> set (customer_list P) \<Longrightarrow> index_ok P c"
  by (auto simp: customer_list_props(2) index_ok_def well_formed_def)

lemma greedy_loop_returns:
  assumes wf: "well_formed P" and feas: "feasible_demands P"
    and sq: "square (length (locations P)) (distance_matrix P)"
  shows "set remaining \<subseteq> set (customer_list P) \<Longrightarrow> set seg \<subseteq> set (customer_list P) \<Longrightarrow>
     seg = [] \<longrightarrow> load = 0 \<Longrightarrow>
     2 * length remaining \<le> fuel + (if seg = [] then 1 else 0) \<Longrightarrow>
     \<exists>sol. greedy_loop fuel P remaining routes (0 # seg) load = Returned sol"
proof (induction fuel arbitrary: remaining routes seg load)
  case 0
  then have "remaining = []"
    by (cases remaining) (auto split: if_splits)
  then show ?case by simp
next
  case (Suc fuel)
  show ?case
  proof (cases remaining)
    case Nil
    then show ?thesis by simp
  next
    case (Cons c cs)
    from Suc.prems(1) have ok: "\<forall>x \<in> set remaining. index_ok P x"
      using customer_index_ok [OF wf] by blast
    from candidates_of_returns [OF ok, of load] obtain cands
      where cands: "candidates_of P remaining load = Inr cands"
      by blast
    from candidates_of_filter [OF cands]
    have filt: "cands = filter (\<lambda>x. demand_of P x + load \<le> vehicle_capacity P) remaining" .
    show ?thesis
    proof (cases "cands = []")
      case True
      have seg: "seg \<noteq> []"
      proof
        assume "seg = []"
        with Suc.prems(3) have "load = 0" by simp
        with Suc.prems(1) feas
        have "\<forall>x \<in> set remaining. demand_of P x + load \<le> vehicle_capacity P"
          by (auto simp: feasible_demands_def)
        with filt have "cands = remaining" by simp
        with True Cons show False by simp
      qed
      with Suc.prems(4) have "2 * length remaining \<le> fuel + (if ([]::int list) = [] then 1 else 0)"
        by simp
      from Suc.IH [OF Suc.prems(1) _ _ this, of 0 "routes @ [(0 # seg) @ [0]]"]
      obtain sol where "greedy_loop fuel P remaining (routes @ [(0 # seg) @ [0]]) [0] 0 = Returned sol"
        by auto
      with cands True show ?thesis
        by (simp add: Cons)
    next
      case False
      have last_ok: "in_range (length (locations P)) (last (0 # seg))"
      proof (cases "seg = []")
        case True
        with wf show ?thesis
          by (simp add: in_range_def well_formed_def)
      next
        case False
        then have "last (0 # seg) \<in> set seg"
          by simp
        with Suc.prems(2) show ?thesis
          using customer_in_range by blast
      qed
      from filt Suc.prems(1) have "\<forall>x \<in> set cands. in_range (length (locations P)) x"
        using customer_in_range by auto
      from distances_from_returns [OF sq last_ok this] obtain keyed
        where keyed: "distances_from P (last (0 # seg)) cands = Inr keyed"
        by blast
      from distances_from_snd [OF keyed] False have "keyed \<noteq> []"
        by auto
      from py_min_key_returns [OF this] obtain next_city
        where pick: "py_min_key keyed = Inr next_city"
        by blast
      from py_min_key_mem [OF pick] distances_from_snd [OF keyed] have "next_city \<in> set cands"
        by (metis set_map)
      with filt have mem: "next_city \<in> set remaining"
        by simp
      with ok have d: "py_index (demands P) next_city = Inr (demand_of P next_city)"
        by (simp add: py_index_ok)
      from mem have len: "length (remove1 next_city remaining) = length remaining - 1"
        by (simp add: length_remove1)
      from mem have pos: "0 < length remaining"
        by (cases remaining) auto
      have "\<exists>sol. greedy_loop fuel P (remove1 next_city remaining) routes
          (0 # (seg @ [next_city])) (load + demand_of P next_city) = Returned sol"
      proof (rule Suc.IH)
        show "set (remove1 next_city remaining) \<subseteq> set (customer_list P)"
          using Suc.prems(1) set_remove1_subset [of next_city remaining] by blast
        show "set (seg @ [next_city]) \<subseteq> set (customer_list P)"
          using Suc.prems(1,2) mem by auto
        show "seg @ [next_city] = [] \<longrightarrow> load + demand_of P next_city = 0"
          by simp
        show "2 * length (remove1 next_city remaining)
            \<le> fuel + (if seg @ [next_city] = [] then 1 else 0)"
          using Suc.prems(4) len pos by (auto split: if_splits)
      qed
      with cands False keyed pick d show ?thesis
        unfolding Cons by simp
    qed
  qed
qed

lemma greedy_solution_returns:
  assumes wf: "well_formed P" and feas: "feasible_demands P"
    and sq: "square (length (locations P)) (distance_matrix P)"
    and fuel: "2 * length (customer_list P) \<le> fuel"
  shows "\<exists>sol. greedy_solution fuel P draws = Returned sol"
proof -
  have "set (py_shuffle (customer_list P) draws) \<subseteq> set (customer_list P)"
    using py_shuffle_mset [of "customer_list P" draws] by (metis mset_eq_setD subset_refl)
  moreover have "length (py_shuffle (customer_list P) draws) = length (customer_list P)"
    by (simp add: py_shuffle_def sample_loop_length)
  ultimately show ?thesis
    unfolding greedy_solution_def using fuel
    by (intro greedy_loop_returns [OF wf feas sq]) simp_all
qed

lemma pf_min_max_returns:
  "costs \<noteq> [] \<Longrightarrow> (\<exists>lo. pf_min costs = Inr lo) \<and> (\<exists>hi. pf_max costs = Inr hi)
     \<and> (\<exists>i. np_argmin costs = Inr i)"
  by (cases costs) simp_all

lemma greedy_restarts_returns:
  assumes wf: "well_formed P" and feas: "feasible_demands P"
    and sq: "square (length (locations P)) (distance_matrix P)"
    and fuel: "2 * length (customer_list P) \<le> fuel"
  shows "\<exists>st'. greedy_restarts rnd fuel P n st seeds = Returned st'
      \<and> (gs_costs st \<noteq> [] \<or> 0 < n \<longrightarrow> gs_costs st' \<noteq> [])"
proof (induction n arbitrary: st seeds)
  case 0
  show ?case by simp
next
  case (Suc n)
  let ?d = "case seeds of [] \<Rightarrow> [] | d # ds \<Rightarrow> d"
  from greedy_solution_returns [OF wf feas sq fuel, of ?d] obtain sol
    where sol: "greedy_solution fuel P ?d = Returned sol"
    by blast
  from wf have ne: "locations P \<noteq> []"
    by (simp add: well_formed_def)
  from good_solution_cost [OF sq ne greedy_solution_good [OF wf feas sol], of rnd]
  obtain cost where cost: "greedy_cost rnd P sol = Inr cost"
    by (cases "sol = []") (auto simp: greedy_cost_def)
  from pf_min_max_returns [of "gs_costs st @ [cost]"] obtain lo hi
    where lo: "pf_min (gs_costs st @ [cost]) = Inr lo" and hi: "pf_max (gs_costs st @ [cost]) = Inr hi"
    by auto
  from Suc.IH [of "\<lparr> gs_solutions = gs_solutions st @ [sol], gs_costs = gs_costs st @ [cost],
      gs_best_series = gs_best_series st @ [lo],
      gs_worst_series = gs_worst_series st @ [hi] \<rparr>" "tl seeds"]
    sol cost lo hi
  show ?case
    by (auto simp: Let_def)
qed

lemma greedy_run_returns:
  assumes wf: "well_formed P" and feas: "feasible_demands P"
    and sq: "square (length (locations P)) (distance_matrix P)"
    and fuel: "2 * length (customer_list P) \<le> fuel"
    and n: "1 \<le> num_runs"
  shows "\<exists>res. greedy_run rnd fuel P num_runs seeds = Returned res"
proof -
  from n have "0 < nat num_runs"
    by simp
  with greedy_restarts_returns [OF wf feas sq fuel, of rnd "nat num_runs"
      "\<lparr> gs_solutions = [], gs_costs = [], gs_best_series = [], gs_worst_series = [] \<rparr>" seeds]
  obtain st where st: "greedy_restarts rnd fuel P (nat num_runs)
      \<lparr> gs_solutions = [], gs_costs = [], gs_best_series = [], gs_worst_series = [] \<rparr> seeds
      = Returned st"
    and ne: "gs_costs st \<noteq> []"
    by blast
  from pf_min_max_returns [OF ne] st show ?thesis
    by (auto simp: greedy_run_def)
qed

text \<open>On a model with a demand above the capacity the greedy construction never ends:
  with an empty route and no candidate it closes the empty route again and again.\<close>

lemma greedy_overload_unfinished:
  "greedy_loop fuel overload_instance [1] routes [0] 0 = Unfinished"
  by (induction fuel arbitrary: routes) (simp_all add: demands_overload py_index_def)

section \<open>Validity of the best solution a strategy returns\<close>































end
